theory Spec2Isabelle
  imports Complex_Main
begin

section \<open>JavaScript values used by the scraper\<close>

text \<open>
  The scraper (\<^verbatim>\<open>src/routes/api/dom-api.ts\<close>) builds records from the element and text
  notifications of an HTML rewriter. Strings are modelled as lists of 8-bit characters,
  read as the code units U+0000 to U+00FF; numbers as exact rationals together with the
  special values of a JavaScript number. A rational stands for the double of that value,
  so a result is faithful where the exact value is a double (negative zero is identified
  with zero).
\<close>

datatype jsnum = Num rat | NaN | Infinity | NegInfinity

text \<open>White space as \<^verbatim>\<open>String.prototype.trim\<close> sees it, within U+0000 to U+00FF.\<close>

definition is_ws :: "char \<Rightarrow> bool" where
  "is_ws c = (of_char c \<in> {9, 10, 11, 12, 13, 32, 160 :: nat})"

definition is_digit :: "char \<Rightarrow> bool" where
  "is_digit c = (48 \<le> (of_char c :: nat) \<and> (of_char c :: nat) \<le> 57)"

definition trimStart :: "string \<Rightarrow> string" where
  "trimStart s = dropWhile is_ws s"

definition trim :: "string \<Rightarrow> string" where
  "trim s = rev (dropWhile is_ws (rev (dropWhile is_ws s)))"

text \<open>The value of a run of decimal digits, most significant digit first.\<close>

fun digits_val :: "nat \<Rightarrow> string \<Rightarrow> nat" where
  "digits_val acc [] = acc"
| "digits_val acc (c # cs) = digits_val (acc * 10 + (of_char c - 48)) cs"

text \<open>
  \<^verbatim>\<open>parseInt(text, 10)\<close>: leading white space is skipped, an optional sign is read, then
  the longest run of decimal digits; without a digit the result is \<^verbatim>\<open>NaN\<close>. What follows
  the digits is ignored.
\<close>

definition parseInt10 :: "string \<Rightarrow> jsnum" where
  "parseInt10 s =
     (let t = trimStart s;
          neg = (case t of [] \<Rightarrow> False | c # _ \<Rightarrow> c = CHR ''-'');
          u = (case t of [] \<Rightarrow> [] | c # r \<Rightarrow> if c = CHR ''-'' \<or> c = CHR ''+'' then r else t);
          ds = takeWhile is_digit u
      in if ds = [] then NaN
         else Num (if neg then - of_nat (digits_val 0 ds) else of_nat (digits_val 0 ds)))"

text \<open>The guard \<^verbatim>\<open>text?.trimStart().match(/^\d/)\<close> of the score and comment-count handlers.\<close>

definition starts_with_digit :: "string \<Rightarrow> bool" where
  "starts_with_digit s = (case trimStart s of [] \<Rightarrow> False | c # _ \<Rightarrow> is_digit c)"

text \<open>
  \<^verbatim>\<open>Number(s)\<close> on a plain run of decimal digits below \<open>2 ^ 53\<close> is the number the digits
  denote. The rest of the string-to-number grammar (signs, white space, exponents,
  hexadecimal literals, rounding of long literals) is not modelled: the handlers take the
  conversion as a parameter \<open>toNumber\<close>, and \<open>Number_digits\<close> is the instance used on
  digit strings in the examples.
\<close>

definition Number_digits :: "string \<Rightarrow> jsnum" where
  "Number_digits s =
     (if s \<noteq> [] \<and> list_all is_digit s \<and> digits_val 0 s < 2 ^ 53
      then Num (of_nat (digits_val 0 s)) else NaN)"

text \<open>
  \<^verbatim>\<open>extractId(href) = Number(/item\?id=(\d+)/.exec(href ?? '')?.[1])\<close>: the leftmost
  occurrence of \<^verbatim>\<open>item?id=\<close> that is followed by a digit, and the longest run of digits
  after it; \<^verbatim>\<open>Number(undefined)\<close> is \<^verbatim>\<open>NaN\<close> when there is none.
\<close>

fun item_id_match :: "string \<Rightarrow> string option" where
  "item_id_match [] = None"
| "item_id_match (c # cs) =
     (let ds = takeWhile is_digit (drop 8 (c # cs))
      in if take 8 (c # cs) = ''item?id='' \<and> ds \<noteq> [] then Some ds else item_id_match cs)"

definition extractId :: "(string \<Rightarrow> jsnum) \<Rightarrow> string option \<Rightarrow> jsnum" where
  "extractId toNumber href =
     (case item_id_match (case href of None \<Rightarrow> [] | Some h \<Rightarrow> h) of
        None \<Rightarrow> NaN
      | Some ds \<Rightarrow> toNumber ds)"

text \<open>\<^verbatim>\<open>x / 40\<close> on a number.\<close>

definition div40 :: "jsnum \<Rightarrow> jsnum" where
  "div40 x = (case x of Num q \<Rightarrow> Num (q / 40) | NaN \<Rightarrow> NaN
                | Infinity \<Rightarrow> Infinity | NegInfinity \<Rightarrow> NegInfinity)"

section \<open>Records under construction\<close>

text \<open>
  \<^verbatim>\<open>Partial<APost>\<close> and \<^verbatim>\<open>Partial<AComment>\<close> are objects whose fields may be absent;
  header posts and comments travel over the same event target, so one record type with
  optional fields holds both. A field that clashes with a keyword carries the suffix
  \<open>_fld\<close>.
\<close>

record item =
  id_fld :: "jsnum option"
  type_fld :: "string option"
  title :: "string option"
  url :: "string option"
  score :: "jsnum option"
  by_fld :: "string option"
  timeAgo :: "string option"
  descendants :: "jsnum option"
  story :: "jsnum option"
  storyTitle :: "string option"
  text_fld :: "string option"
  level :: "jsnum option"
  parent :: "jsnum option"
  quality :: "string option"
  deleted :: "bool option"

definition empty_item :: item where
  "empty_item = \<lparr> id_fld = None, type_fld = None, title = None, url = None, score = None,
     by_fld = None, timeAgo = None, descendants = None, story = None, storyTitle = None,
     text_fld = None, level = None, parent = None, quality = None, deleted = None \<rparr>"

text \<open>
  \<^verbatim>\<open>field += text\<close> on a string field; on an absent field JavaScript concatenates the
  string \<^verbatim>\<open>undefined\<close>.
\<close>

definition append_str :: "string option \<Rightarrow> string \<Rightarrow> string option" where
  "append_str f t = (case f of None \<Rightarrow> Some (''undefined'' @ t) | Some s \<Rightarrow> Some (s @ t))"

text \<open>
  \<^verbatim>\<open>elToTagOpen\<close>: the opening tag of an element, from its tag name and its attributes
  in the order given.
\<close>

fun join_sp :: "string list \<Rightarrow> string" where
  "join_sp [] = []"
| "join_sp [x] = x"
| "join_sp (x # y # ys) = x @ '' '' @ join_sp (y # ys)"

definition elToTagOpen :: "string \<Rightarrow> (string \<times> string) list \<Rightarrow> string" where
  "elToTagOpen tagName attributes =
     ''<'' @ tagName @ '' '' @
     join_sp (map (\<lambda>x. fst x @ ''='' @ [CHR 0x22] @ snd x @ [CHR 0x22]) attributes) @ ''>''"

definition endTagText :: "string \<Rightarrow> string" where
  "endTagText name = ''</'' @ name @ ''>''"

section \<open>Repairing a comment\<close>

text \<open>
  \<^verbatim>\<open>fixComment\<close>: a body that is absent, empty or white space only marks the comment
  deleted and is replaced by a placeholder; any other body is wrapped in a paragraph and
  passed to \<^verbatim>\<open>blockquotify\<close>. \<^verbatim>\<open>blockquotify\<close> lives in \<^verbatim>\<open>./util\<close> and is a parameter
  here.
\<close>

definition fixComment :: "(string \<Rightarrow> string) \<Rightarrow> item \<Rightarrow> item" where
  "fixComment blockquotify comment =
     (case text_fld comment of
        None \<Rightarrow> comment\<lparr>deleted := Some True, text_fld := Some '' [flagged] ''\<rparr>
      | Some t \<Rightarrow>
          if trim t \<noteq> [] then comment\<lparr>text_fld := Some (blockquotify (''<p>'' @ t))\<rparr>
          else comment\<lparr>deleted := Some True, text_fld := Some '' [flagged] ''\<rparr>)"


section \<open>The markup pass, the store and the event target\<close>

text \<open>
  The rewriter calls the handlers registered for a selector in document order, one call
  per matching element and one per chunk of matching text. Which elements match a
  selector is the rewriter's business: the markup of a pass is modelled by the handler
  calls it makes, and by how the stream of markup ends.

  The generators read the records while the markup is still being rewritten. Handlers run
  to their end without interruption; between two chunks of markup the consumer may run and
  take records from the iterator. Where the chunks end is not known, so a pass is a list
  of steps in which a \<open>Pull\<close> of the consumer may stand between any two handler calls.
  Records still waiting when the steps are over are pulled afterwards.
\<close>

datatype ending = Completed | Errored

datatype 'e step = Handler 'e | Pull

fun events_of :: "'e step list \<Rightarrow> 'e list" where
  "events_of [] = []"
| "events_of (Handler e # st) = e # events_of st"
| "events_of (Pull # st) = events_of st"

text \<open>
  Records are objects: a handler writes to the object its variable refers to, the event
  target carries references, and the consumer writes to the object it is handed. \<open>heap\<close>
  maps a reference to the fields of its object, \<open>fresh\<close> is the next unused reference,
  \<open>dispatched\<close> lists the references dispatched on the event target \<open>data\<close>, oldest
  first, and \<open>moreLink\<close> is the cell of the continuation. \<open>thrown\<close> records that a
  handler has thrown: the rewriter then fails and calls no further handler.
\<close>

record channel =
  heap :: "nat \<Rightarrow> item"
  fresh :: nat
  dispatched :: "nat list"
  moreLink :: "string option"
  thrown :: bool

definition alloc :: "item \<Rightarrow> 'a channel_scheme \<Rightarrow> 'a channel_scheme" where
  "alloc obj s = s\<lparr>heap := (heap s)(fresh s := obj), fresh := Suc (fresh s)\<rparr>"

definition assign :: "nat \<Rightarrow> (item \<Rightarrow> item) \<Rightarrow> 'a channel_scheme \<Rightarrow> 'a channel_scheme" where
  "assign a f s = s\<lparr>heap := (heap s)(a := f (heap s a))\<rparr>"

definition dispatchEvent :: "nat \<Rightarrow> 'a channel_scheme \<Rightarrow> 'a channel_scheme" where
  "dispatchEvent detail s = s\<lparr>dispatched := dispatched s @ [detail]\<rparr>"

definition throw :: "'a channel_scheme \<Rightarrow> 'a channel_scheme" where
  "throw s = s\<lparr>thrown := True\<rparr>"

text \<open>
  Modelled from the spec: \<^verbatim>\<open>resolvablePromise\<close> (\<^verbatim>\<open>src/vendor/resolvable-promise\<close>) is
  missing. The continuation is "an explicit single-assignment cell" whose reference "is
  captured exactly once": the first \<^verbatim>\<open>resolve\<close> fills the cell, a later one changes
  nothing.
\<close>

definition resolve :: "string option \<Rightarrow> string \<Rightarrow> string option" where
  "resolve cell v = (case cell of None \<Rightarrow> Some v | Some w \<Rightarrow> Some w)"

text \<open>
  The consumer side of the iterator that \<^verbatim>\<open>eventTargetToAsyncIter\<close> (an external package)
  puts over \<open>data\<close>: \<open>taken\<close> counts the references handed over so far, in the order of
  their dispatch, and \<open>out\<close> lists what the consumer has yielded: the reference, and the
  fields its object has at that moment. A pull hands the next reference over, if there is
  one, and runs the body of the consumer on its object.
\<close>

record consumer =
  taken :: nat
  out :: "(nat \<times> item) list"

definition consumer_init :: consumer where
  "consumer_init = \<lparr> taken = 0, out = [] \<rparr>"

definition pull ::
  "(item \<Rightarrow> item) \<Rightarrow> 'a channel_scheme \<times> 'b consumer_scheme
     \<Rightarrow> 'a channel_scheme \<times> 'b consumer_scheme" where
  "pull body sc =
     (case sc of (s, c) \<Rightarrow>
        if taken c < length (dispatched s)
        then (let a = dispatched s ! taken c; v = body (heap s a)
              in (s\<lparr>heap := (heap s)(a := v)\<rparr>,
                  c\<lparr>taken := Suc (taken c), out := out c @ [(a, v)]\<rparr>))
        else (s, c))"

text \<open>
  One step of a pass, a pass, and the pulls that follow it until every reference
  dispatched has been handed over.
\<close>

fun advance ::
  "('a channel_scheme \<Rightarrow> 'e \<Rightarrow> 'a channel_scheme) \<Rightarrow> ('a channel_scheme \<times> 'c \<Rightarrow> 'a channel_scheme \<times> 'c)
     \<Rightarrow> 'a channel_scheme \<times> 'c \<Rightarrow> 'e step \<Rightarrow> 'a channel_scheme \<times> 'c" where
  "advance handler p (s, c) (Handler e) = (if thrown s then (s, c) else (handler s e, c))"
| "advance handler p (s, c) Pull = p (s, c)"

definition run ::
  "('a channel_scheme \<Rightarrow> 'e \<Rightarrow> 'a channel_scheme) \<Rightarrow> ('a channel_scheme \<times> 'c \<Rightarrow> 'a channel_scheme \<times> 'c)
     \<Rightarrow> 'a channel_scheme \<times> 'c \<Rightarrow> 'e step list \<Rightarrow> 'a channel_scheme \<times> 'c" where
  "run handler p sc steps = foldl (advance handler p) sc steps"

definition drain ::
  "('a channel_scheme \<times> 'b consumer_scheme \<Rightarrow> 'a channel_scheme \<times> 'b consumer_scheme)
     \<Rightarrow> 'a channel_scheme \<times> 'b consumer_scheme \<Rightarrow> 'a channel_scheme \<times> 'b consumer_scheme" where
  "drain p sc = (p ^^ (length (dispatched (fst sc)) - taken (snd sc))) sc"

definition pass ::
  "('a channel_scheme \<Rightarrow> 'e \<Rightarrow> 'a channel_scheme)
     \<Rightarrow> ('a channel_scheme \<times> 'b consumer_scheme \<Rightarrow> 'a channel_scheme \<times> 'b consumer_scheme)
     \<Rightarrow> 'a channel_scheme \<times> 'b consumer_scheme \<Rightarrow> 'e step list
     \<Rightarrow> 'a channel_scheme \<times> 'b consumer_scheme" where
  "pass handler p sc steps = drain p (run handler p sc steps)"

text \<open>
  Modelled from the spec: \<^verbatim>\<open>consume\<close> (\<^verbatim>\<open>./util\<close>) is missing. Driving the markup stream
  "must be awaited/consumed to completion": the promise of \<open>consume\<close> is fulfilled when
  the stream completes (\<open>True\<close>) and rejected when the stream ends in error (\<open>False\<close>).
  The transformed stream ends in error when the markup does or when a handler has thrown.
\<close>

definition consume :: "ending \<Rightarrow> bool" where
  "consume e = (case e of Completed \<Rightarrow> True | Errored \<Rightarrow> False)"

definition transformed :: "'a channel_scheme \<Rightarrow> ending \<Rightarrow> ending" where
  "transformed s e = (if thrown s then Errored else e)"

text \<open>
  What a caller sees of an asynchronous generator: the values it yields, and then that it
  returns, never settles, or throws. What a caller sees of a promise: its value, its
  rejection, or nothing ever.
\<close>

datatype 'a run_result = Done (yields: "'a list") | Hang (yields: "'a list") | Throw (yields: "'a list")

datatype 'a settled = Fulfilled 'a | Rejected | Pending

datatype yielded = Rec "nat \<times> item" | More string

datatype 'r fetched = FetchFailed | Response 'r

section \<open>The listings pass\<close>

text \<open>
  The handler calls of \<^verbatim>\<open>storiesGenerator\<close>, with the attribute or the text chunk they
  read:
  \<^item> \<open>Athing\<close>: element \<^verbatim>\<open>.athing[id]\<close>, its \<^verbatim>\<open>id\<close>;
  \<^item> \<open>TitleLink\<close>, \<open>TitleLinkText\<close>: element and text of
    \<^verbatim>\<open>.athing[id] > .title > a.titlelink\<close>, the element with its \<^verbatim>\<open>href\<close> if any;
  \<^item> \<open>ScoreText\<close>: text of \<^verbatim>\<open>.subtext > .score\<close>;
  \<^item> \<open>HnuserText\<close>: text of \<^verbatim>\<open>.subtext > .hnuser\<close>;
  \<^item> \<open>AgeText\<close>: text of \<^verbatim>\<open>.subtext > .age\<close>;
  \<^item> \<open>ItemLinkText\<close>: text of \<^verbatim>\<open>.subtext > a[href^=item]\<close>;
  \<^item> \<open>MoreLink\<close>: element \<^verbatim>\<open>.morelink[href]\<close>, its \<^verbatim>\<open>href\<close>;
  \<^item> \<open>YcLinks\<close>: element \<^verbatim>\<open>.yclinks\<close>.
\<close>

datatype stories_event =
    Athing string
  | TitleLink "string option"
  | TitleLinkText string
  | ScoreText string
  | HnuserText string
  | AgeText string
  | ItemLinkText string
  | MoreLink string
  | YcLinks

text \<open>
  \<open>post\<close> is the variable of the record under construction: no reference before the
  first \<^verbatim>\<open>.athing[id]\<close>, and a write through it then is a \<^verbatim>\<open>TypeError\<close>.
\<close>

record stories_state = channel +
  post :: "nat option"

definition stories_init :: stories_state where
  "stories_init = \<lparr> heap = (\<lambda>a. empty_item), fresh = 0, dispatched = [], moreLink = None,
     thrown = False, post = None \<rparr>"

fun stories_handler ::
  "(string \<Rightarrow> string) \<Rightarrow> (string \<Rightarrow> jsnum) \<Rightarrow> stories_state \<Rightarrow> stories_event
     \<Rightarrow> stories_state" where
  "stories_handler unescape toNumber s (Athing idattr) =
     (alloc (empty_item\<lparr>id_fld := Some (toNumber idattr), title := Some [],
               score := Some (Num 0), by_fld := Some [], timeAgo := Some [],
               descendants := Some (Num 0),
               story := (case post s of None \<Rightarrow> None | Some p \<Rightarrow> story (heap s p))\<rparr>)
        (case post s of None \<Rightarrow> s | Some p \<Rightarrow> dispatchEvent p s))
     \<lparr>post := Some (fresh s)\<rparr>"
| "stories_handler unescape toNumber s (TitleLink href) =
     (case post s of None \<Rightarrow> throw s
      | Some p \<Rightarrow> assign p (\<lambda>x. x\<lparr>url :=
          (case href of None \<Rightarrow> None | Some h \<Rightarrow> if h = [] then None else Some h)\<rparr>) s)"
| "stories_handler unescape toNumber s (TitleLinkText t) =
     (case post s of None \<Rightarrow> throw s
      | Some p \<Rightarrow> assign p (\<lambda>x. x\<lparr>title := append_str (title x) t\<rparr>) s)"
| "stories_handler unescape toNumber s (ScoreText t) =
     (if starts_with_digit t
      then (case post s of None \<Rightarrow> throw s
            | Some p \<Rightarrow> assign p (\<lambda>x. x\<lparr>score := Some (parseInt10 t)\<rparr>) s)
      else s)"
| "stories_handler unescape toNumber s (HnuserText t) =
     (case post s of None \<Rightarrow> throw s
      | Some p \<Rightarrow> assign p (\<lambda>x. x\<lparr>by_fld := append_str (by_fld x) t\<rparr>) s)"
| "stories_handler unescape toNumber s (AgeText t) =
     (case post s of None \<Rightarrow> throw s
      | Some p \<Rightarrow> assign p (\<lambda>x. x\<lparr>timeAgo := append_str (timeAgo x) t\<rparr>) s)"
| "stories_handler unescape toNumber s (ItemLinkText t) =
     (if starts_with_digit t
      then (case post s of None \<Rightarrow> throw s
            | Some p \<Rightarrow> assign p (\<lambda>x. x\<lparr>descendants := Some (parseInt10 t)\<rparr>) s)
      else s)"
| "stories_handler unescape toNumber s (MoreLink href) =
     s\<lparr>moreLink := resolve (moreLink s) (unescape href)\<rparr>"
| "stories_handler unescape toNumber s YcLinks =
     (case post s of None \<Rightarrow> s | Some p \<Rightarrow> dispatchEvent p s)"

text \<open>The body of the consumer loop: a record without a kind is a story, one without an
  author a job.\<close>

definition stories_body :: "item \<Rightarrow> item" where
  "stories_body p =
     (let p1 = p\<lparr>type_fld := (case type_fld p of None \<Rightarrow> Some ''story''
                                | Some k \<Rightarrow> if k = [] then Some ''story'' else Some k)\<rparr>
      in if by_fld p1 = None \<or> by_fld p1 = Some [] then p1\<lparr>type_fld := Some ''job''\<rparr> else p1)"

text \<open>
  \<^verbatim>\<open>storiesGenerator\<close>. The loop yields each record it is handed, after its body. The
  iterator ends once \<^verbatim>\<open>iter.return()\<close> has run; records dispatched before are still handed
  over. That call is the continuation of the promise of \<open>consume\<close>, and the promise has
  no other continuation: when it is rejected the iterator is neither ended nor failed,
  and the loop waits for a next record that never comes. After the loop the continuation
  is resolved with the empty string and awaited.
\<close>

definition stories_pass ::
  "(string \<Rightarrow> string) \<Rightarrow> (string \<Rightarrow> jsnum) \<Rightarrow> stories_event step list
     \<Rightarrow> stories_state \<times> consumer" where
  "stories_pass unescape toNumber steps =
     pass (stories_handler unescape toNumber) (pull stories_body) (stories_init, consumer_init) steps"

definition storiesGenerator ::
  "(string \<Rightarrow> string) \<Rightarrow> (string \<Rightarrow> jsnum) \<Rightarrow> stories_event step list \<times> ending
     \<Rightarrow> yielded run_result" where
  "storiesGenerator unescape toNumber response =
     (case stories_pass unescape toNumber (fst response) of
        (s, c) \<Rightarrow>
          if consume (transformed s (snd response))
          then (case resolve (moreLink s) [] of
                  None \<Rightarrow> Hang (map Rec (out c))
                | Some v \<Rightarrow> Done (map Rec (out c) @ [More v]))
          else Hang (map Rec (out c)))"

text \<open>
  \<^verbatim>\<open>stories\<close>: the address is built from the parameters and fetched, which is outside
  the model; then the generator is delegated to. A fetch that is rejected makes the
  generator throw at the first pull.
\<close>

definition stories ::
  "(string \<Rightarrow> string) \<Rightarrow> (string \<Rightarrow> jsnum) \<Rightarrow> (stories_event step list \<times> ending) fetched
     \<Rightarrow> yielded run_result" where
  "stories unescape toNumber fetch =
     (case fetch of FetchFailed \<Rightarrow> Throw []
      | Response response \<Rightarrow> storiesGenerator unescape toNumber response)"


section \<open>Comment passes\<close>

text \<open>
  The handler calls that \<^verbatim>\<open>scrapeComments\<close> registers; every selector but the last is
  under \<^verbatim>\<open>prefix .athing.comtr[id]\<close>:
  \<^item> \<open>Comtr\<close>: the element \<^verbatim>\<open>.athing.comtr[id]\<close> itself, its \<^verbatim>\<open>id\<close>;
  \<^item> \<open>IndImg\<close>: element \<^verbatim>\<open>.ind > img[src="s.gif"][width]\<close>, its \<^verbatim>\<open>width\<close>;
  \<^item> \<open>CommentHnuserText\<close>, \<open>CommentAgeText\<close>: text of \<^verbatim>\<open>.hnuser\<close> and of \<^verbatim>\<open>.age\<close>;
  \<^item> \<open>ParLink\<close>: element \<^verbatim>\<open>.par > a[href]\<close>, its \<^verbatim>\<open>href\<close>;
  \<^item> \<open>StoryonLink\<close>, \<open>StoryonText\<close>: element (its \<^verbatim>\<open>href\<close>) and text of
    \<^verbatim>\<open>.storyon > a[href]\<close>;
  \<^item> \<open>Commtext\<close>, \<open>CommtextText\<close>: element (its \<^verbatim>\<open>class\<close>) and text of \<^verbatim>\<open>.commtext\<close>;
  \<^item> \<open>CommtextChild\<close>: element \<^verbatim>\<open>.commtext *\<close>, with its tag name, its attributes, and
    whether it is a void element (\<^verbatim>\<open>br\<close>, \<^verbatim>\<open>img\<close>), which has no end tag: the handler
    appends the opening tag and then calls \<^verbatim>\<open>el.onEndTag\<close>, which throws on such an
    element;
  \<^item> \<open>CommtextChildEnd\<close>: the end tag of such an element, with its name;
  \<^item> \<open>Reply\<close>: element \<^verbatim>\<open>.comment .reply\<close>, which is removed from the output;
  \<^item> \<open>CommentYcLinks\<close>: element \<^verbatim>\<open>.yclinks\<close>.
\<close>

datatype comment_event =
    Comtr string
  | IndImg string
  | CommentHnuserText string
  | CommentAgeText string
  | ParLink string
  | StoryonLink string
  | StoryonText string
  | Commtext "string option"
  | CommtextText string
  | CommtextChild string "(string \<times> string) list" bool
  | CommtextChildEnd string
  | Reply
  | CommentYcLinks

record scrape_state = channel +
  comment :: "nat option"

definition quality_of :: "string option \<Rightarrow> string option" where
  "quality_of cls = (case cls of None \<Rightarrow> None | Some c \<Rightarrow> Some (trim (drop 9 c)))"

text \<open>The handler of a child element: the opening tag is appended, then \<^verbatim>\<open>onEndTag\<close> is
  called.\<close>

definition open_child ::
  "nat \<Rightarrow> string \<Rightarrow> (string \<times> string) list \<Rightarrow> bool \<Rightarrow> 'a channel_scheme \<Rightarrow> 'a channel_scheme" where
  "open_child a tagName attributes void s =
     (let s1 = assign a (\<lambda>x. x\<lparr>text_fld := append_str (text_fld x) (elToTagOpen tagName attributes)\<rparr>) s
      in if void then throw s1 else s1)"

fun scrapeComments ::
  "(string \<Rightarrow> jsnum) \<Rightarrow> 'a scrape_state_scheme \<Rightarrow> comment_event \<Rightarrow> 'a scrape_state_scheme" where
  "scrapeComments toNumber s (Comtr idattr) =
     (alloc (empty_item\<lparr>id_fld := Some (toNumber idattr), type_fld := Some ''comment'',
               by_fld := Some [], timeAgo := Some [], text_fld := Some [],
               storyTitle := Some []\<rparr>)
        (case comment s of None \<Rightarrow> s | Some c \<Rightarrow> dispatchEvent c s))
     \<lparr>comment := Some (fresh s)\<rparr>"
| "scrapeComments toNumber s (IndImg width) =
     (case comment s of None \<Rightarrow> throw s
      | Some c \<Rightarrow> assign c (\<lambda>x. x\<lparr>level := Some (div40 (toNumber width))\<rparr>) s)"
| "scrapeComments toNumber s (CommentHnuserText t) =
     (case comment s of None \<Rightarrow> throw s
      | Some c \<Rightarrow> assign c (\<lambda>x. x\<lparr>by_fld := append_str (by_fld x) t\<rparr>) s)"
| "scrapeComments toNumber s (CommentAgeText t) =
     (case comment s of None \<Rightarrow> throw s
      | Some c \<Rightarrow> assign c (\<lambda>x. x\<lparr>timeAgo := append_str (timeAgo x) t\<rparr>) s)"
| "scrapeComments toNumber s (ParLink href) =
     (case comment s of None \<Rightarrow> throw s
      | Some c \<Rightarrow> assign c (\<lambda>x. x\<lparr>parent := Some (extractId toNumber (Some href))\<rparr>) s)"
| "scrapeComments toNumber s (StoryonLink href) =
     (case comment s of None \<Rightarrow> throw s
      | Some c \<Rightarrow> assign c (\<lambda>x. x\<lparr>story := Some (extractId toNumber (Some href))\<rparr>) s)"
| "scrapeComments toNumber s (StoryonText t) =
     (case comment s of None \<Rightarrow> throw s
      | Some c \<Rightarrow> assign c (\<lambda>x. x\<lparr>storyTitle := append_str (storyTitle x) t\<rparr>) s)"
| "scrapeComments toNumber s (Commtext cls) =
     (case comment s of None \<Rightarrow> throw s
      | Some c \<Rightarrow> assign c (\<lambda>x. x\<lparr>quality := quality_of cls\<rparr>) s)"
| "scrapeComments toNumber s (CommtextText t) =
     (case comment s of None \<Rightarrow> throw s
      | Some c \<Rightarrow> assign c (\<lambda>x. x\<lparr>text_fld := append_str (text_fld x) t\<rparr>) s)"
| "scrapeComments toNumber s (CommtextChild tagName attributes void) =
     (case comment s of None \<Rightarrow> throw s
      | Some c \<Rightarrow> open_child c tagName attributes void s)"
| "scrapeComments toNumber s (CommtextChildEnd name) =
     (case comment s of None \<Rightarrow> throw s
      | Some c \<Rightarrow> assign c (\<lambda>x. x\<lparr>text_fld := append_str (text_fld x) (endTagText name)\<rparr>) s)"
| "scrapeComments toNumber s Reply = s"
| "scrapeComments toNumber s CommentYcLinks =
     (case comment s of None \<Rightarrow> s | Some c \<Rightarrow> dispatchEvent c s)"

text \<open>
  The handler calls on the focused item of a thread page, in the order in which
  \<^verbatim>\<open>commentsGenerator\<close> registers them; every selector is under \<^verbatim>\<open>.fatitem\<close>:
  \<^verbatim>\<open>.athing[id]\<close>; element and text of \<^verbatim>\<open>.athing[id] > .title > a.titlelink\<close>; text of
  \<^verbatim>\<open>.subtext > .score\<close>, \<^verbatim>\<open>.subtext > .hnuser\<close>, \<^verbatim>\<open>.subtext > .age\<close> and
  \<^verbatim>\<open>.subtext > a[href^=item]\<close>; text of \<^verbatim>\<open>tr:nth-child(4) > td:nth-child(2)\<close>, and the
  elements \<^verbatim>\<open>*:not(form) *\<close> under it with their end tags; text of \<^verbatim>\<open>.comhead > .hnuser\<close>
  and \<^verbatim>\<open>.comhead > .age\<close>; element \<^verbatim>\<open>.comhead > .navs > a[href^="item"]\<close>; element and
  text of \<^verbatim>\<open>.comhead > .onstory > a[href]\<close>; element and text of \<^verbatim>\<open>.commtext\<close>, and
  the elements \<^verbatim>\<open>.commtext *\<close> with their end tags. A child element comes with its tag
  name, its attributes and whether it is a void element.
\<close>

datatype header_event =
    FatAthing string
  | FatTitleLink "string option"
  | FatTitleLinkText string
  | FatScoreText string
  | FatHnuserText string
  | FatAgeText string
  | FatItemLinkText string
  | FatCellText string
  | FatCellChild string "(string \<times> string) list" bool
  | FatCellChildEnd string
  | ComheadHnuserText string
  | ComheadAgeText string
  | NavsLink string
  | OnstoryLink string
  | OnstoryText string
  | FatCommtext "string option"
  | FatCommtextText string
  | FatCommtextChild string "(string \<times> string) list" bool
  | FatCommtextChildEnd string

text \<open>
  The handler calls of a comment pass: those on the focused item, element
  \<^verbatim>\<open>.comment-tree\<close>, element \<^verbatim>\<open>a.morelink[href][rel="next"]\<close> with its \<^verbatim>\<open>href\<close>, and those
  of \<^verbatim>\<open>scrapeComments\<close>. \<^verbatim>\<open>threadsGenerator\<close> registers no handler for the focused item
  and none for \<^verbatim>\<open>.comment-tree\<close>: such an element changes nothing there.
\<close>

datatype thread_event =
    Header header_event
  | CommentTree
  | MoreLinkNext string
  | Scrape comment_event

fun threads_handler ::
  "(string \<Rightarrow> string) \<Rightarrow> (string \<Rightarrow> jsnum) \<Rightarrow> scrape_state \<Rightarrow> thread_event \<Rightarrow> scrape_state" where
  "threads_handler unescape toNumber s (MoreLinkNext href) =
     s\<lparr>moreLink := resolve (moreLink s) (unescape href)\<rparr>"
| "threads_handler unescape toNumber s (Scrape e) = scrapeComments toNumber s e"
| "threads_handler unescape toNumber s (Header e) = s"
| "threads_handler unescape toNumber s CommentTree = s"

definition scrape_init :: scrape_state where
  "scrape_init = \<lparr> heap = (\<lambda>a. empty_item), fresh = 0, dispatched = [], moreLink = None,
     thrown = False, comment = None \<rparr>"

definition threads_pass ::
  "(string \<Rightarrow> string) \<Rightarrow> (string \<Rightarrow> jsnum) \<Rightarrow> (string \<Rightarrow> string) \<Rightarrow> thread_event step list
     \<Rightarrow> scrape_state \<times> consumer" where
  "threads_pass unescape toNumber blockquotify steps =
     pass (threads_handler unescape toNumber) (pull (fixComment blockquotify))
       (scrape_init, consumer_init) steps"

definition threadsGenerator ::
  "(string \<Rightarrow> string) \<Rightarrow> (string \<Rightarrow> jsnum) \<Rightarrow> (string \<Rightarrow> string)
     \<Rightarrow> thread_event step list \<times> ending \<Rightarrow> yielded run_result" where
  "threadsGenerator unescape toNumber blockquotify response =
     (case threads_pass unescape toNumber blockquotify (fst response) of
        (s, c) \<Rightarrow>
          if consume (transformed s (snd response))
          then (case resolve (moreLink s) [] of
                  None \<Rightarrow> Hang (map Rec (out c))
                | Some v \<Rightarrow> Done (map Rec (out c) @ [More v]))
          else Hang (map Rec (out c)))"

text \<open>
  On a thread page \<open>post\<close> is a constant: the object of the focused item exists from the
  start, at the reference \<open>post_ref\<close>, so its handlers never write to a missing record.
\<close>

definition post_ref :: nat where
  "post_ref = 0"

definition comments_init :: scrape_state where
  "comments_init = \<lparr> heap = (\<lambda>a. empty_item)(post_ref := empty_item\<lparr>title := Some [],
       score := Some (Num 0), by_fld := Some [], timeAgo := Some [],
       descendants := Some (Num 0), text_fld := Some [], storyTitle := Some []\<rparr>),
     fresh = Suc post_ref, dispatched = [], moreLink = None, thrown = False, comment = None \<rparr>"

fun fatitem_handler ::
  "(string \<Rightarrow> string) \<Rightarrow> (string \<Rightarrow> jsnum) \<Rightarrow> 'a channel_scheme \<Rightarrow> header_event
     \<Rightarrow> 'a channel_scheme" where
  "fatitem_handler unescape toNumber s (FatAthing idattr) =
     assign post_ref (\<lambda>x. x\<lparr>id_fld := Some (toNumber idattr)\<rparr>) s"
| "fatitem_handler unescape toNumber s (FatTitleLink href) =
     assign post_ref (\<lambda>x. x\<lparr>url := Some (unescape (case href of None \<Rightarrow> [] | Some h \<Rightarrow> h))\<rparr>) s"
| "fatitem_handler unescape toNumber s (FatTitleLinkText t) =
     assign post_ref (\<lambda>x. x\<lparr>title := append_str (title x) t\<rparr>) s"
| "fatitem_handler unescape toNumber s (FatScoreText t) =
     (if starts_with_digit t then assign post_ref (\<lambda>x. x\<lparr>score := Some (parseInt10 t)\<rparr>) s else s)"
| "fatitem_handler unescape toNumber s (FatHnuserText t) =
     assign post_ref (\<lambda>x. x\<lparr>by_fld := append_str (by_fld x) t\<rparr>) s"
| "fatitem_handler unescape toNumber s (FatAgeText t) =
     assign post_ref (\<lambda>x. x\<lparr>timeAgo := append_str (timeAgo x) t\<rparr>) s"
| "fatitem_handler unescape toNumber s (FatItemLinkText t) =
     (if starts_with_digit t then assign post_ref (\<lambda>x. x\<lparr>descendants := Some (parseInt10 t)\<rparr>) s
      else s)"
| "fatitem_handler unescape toNumber s (FatCellText t) =
     assign post_ref (\<lambda>x. x\<lparr>text_fld := append_str (text_fld x) t\<rparr>) s"
| "fatitem_handler unescape toNumber s (FatCellChild tagName attributes void) =
     open_child post_ref tagName attributes void s"
| "fatitem_handler unescape toNumber s (FatCellChildEnd name) =
     assign post_ref (\<lambda>x. x\<lparr>text_fld := append_str (text_fld x) (endTagText name)\<rparr>) s"
| "fatitem_handler unescape toNumber s (ComheadHnuserText t) =
     assign post_ref (\<lambda>x. x\<lparr>by_fld := append_str (by_fld x) t\<rparr>) s"
| "fatitem_handler unescape toNumber s (ComheadAgeText t) =
     assign post_ref (\<lambda>x. x\<lparr>timeAgo := append_str (timeAgo x) t\<rparr>) s"
| "fatitem_handler unescape toNumber s (NavsLink href) =
     assign post_ref (\<lambda>x. x\<lparr>parent := Some (extractId toNumber (Some href))\<rparr>) s"
| "fatitem_handler unescape toNumber s (OnstoryLink href) =
     assign post_ref (\<lambda>x. x\<lparr>story := Some (extractId toNumber (Some href))\<rparr>) s"
| "fatitem_handler unescape toNumber s (OnstoryText t) =
     assign post_ref (\<lambda>x. x\<lparr>storyTitle := append_str (storyTitle x) t\<rparr>) s"
| "fatitem_handler unescape toNumber s (FatCommtext cls) =
     assign post_ref (\<lambda>x. x\<lparr>type_fld := Some ''comment'', quality := quality_of cls\<rparr>) s"
| "fatitem_handler unescape toNumber s (FatCommtextText t) =
     assign post_ref (\<lambda>x. x\<lparr>text_fld := append_str (text_fld x) t\<rparr>) s"
| "fatitem_handler unescape toNumber s (FatCommtextChild tagName attributes void) =
     open_child post_ref tagName attributes void s"
| "fatitem_handler unescape toNumber s (FatCommtextChildEnd name) =
     assign post_ref (\<lambda>x. x\<lparr>text_fld := append_str (text_fld x) (endTagText name)\<rparr>) s"

fun comments_handler ::
  "(string \<Rightarrow> string) \<Rightarrow> (string \<Rightarrow> jsnum) \<Rightarrow> scrape_state \<Rightarrow> thread_event \<Rightarrow> scrape_state" where
  "comments_handler unescape toNumber s (Header e) = fatitem_handler unescape toNumber s e"
| "comments_handler unescape toNumber s CommentTree = dispatchEvent post_ref s"
| "comments_handler unescape toNumber s (MoreLinkNext href) =
     s\<lparr>moreLink := resolve (moreLink s) (unescape href)\<rparr>"
| "comments_handler unescape toNumber s (Scrape e) = scrapeComments toNumber s e"

text \<open>
  \<^verbatim>\<open>commentsGenerator\<close> awaits one record from the iterator and drops it; at that moment it
  normalises the body of \<open>post\<close> and returns \<open>post\<close>, with the comment sequence \<open>kids\<close>
  and the promise of the continuation. \<open>returned\<close> keeps the fields \<open>post\<close> has when it is
  returned. Every later pull is a pull of the comment sequence: its callback reads the
  identifier of \<open>post\<close> at that moment.

  Modelled from the spec: \<^verbatim>\<open>aMap\<close> (\<^verbatim>\<open>./iter\<close>) is missing. The comment sequence is "a
  lazily-pulled continuation of the same underlying" iterator: each pull of the sequence
  pulls one record from the iterator and applies the callback to it, and the sequence
  ends as the iterator does.
\<close>

definition kids_callback :: "(string \<Rightarrow> string) \<Rightarrow> item \<Rightarrow> item \<Rightarrow> item" where
  "kids_callback blockquotify p c = fixComment blockquotify (c\<lparr>story := id_fld p\<rparr>)"

definition fix_post_text :: "(string \<Rightarrow> string) \<Rightarrow> item \<Rightarrow> item" where
  "fix_post_text blockquotify p =
     (case text_fld p of None \<Rightarrow> p\<lparr>text_fld := None\<rparr>
      | Some t \<Rightarrow> if trim t \<noteq> [] then p\<lparr>text_fld := Some (blockquotify (''<p>'' @ t))\<rparr>
                  else p\<lparr>text_fld := None\<rparr>)"

record page_consumer = consumer +
  returned :: "item option"

definition page_init :: page_consumer where
  "page_init = \<lparr> taken = 0, out = [], returned = None \<rparr>"

definition return_post ::
  "(string \<Rightarrow> string) \<Rightarrow> scrape_state \<times> page_consumer \<Rightarrow> scrape_state \<times> page_consumer" where
  "return_post blockquotify sc =
     (case sc of (s, c) \<Rightarrow>
        (assign post_ref (fix_post_text blockquotify) s,
         c\<lparr>returned := Some (fix_post_text blockquotify (heap s post_ref))\<rparr>))"

definition pull_page ::
  "(string \<Rightarrow> string) \<Rightarrow> scrape_state \<times> page_consumer \<Rightarrow> scrape_state \<times> page_consumer" where
  "pull_page blockquotify sc =
     (case sc of (s, c) \<Rightarrow>
        if taken c < length (dispatched s)
        then (case returned c of
                None \<Rightarrow> return_post blockquotify (s, c\<lparr>taken := Suc (taken c)\<rparr>)
              | Some h \<Rightarrow> pull (kids_callback blockquotify (heap s post_ref)) (s, c))
        else (s, c))"

definition comments_pass ::
  "(string \<Rightarrow> string) \<Rightarrow> (string \<Rightarrow> jsnum) \<Rightarrow> (string \<Rightarrow> string) \<Rightarrow> thread_event step list
     \<Rightarrow> scrape_state \<times> page_consumer" where
  "comments_pass unescape toNumber blockquotify steps =
     pass (comments_handler unescape toNumber) (pull_page blockquotify)
       (comments_init, page_init) steps"

text \<open>
  What the caller of \<^verbatim>\<open>commentsGenerator\<close> gets: the reference of the header and the
  fields it has when returned, the comment sequence, and the promise of the continuation,
  which is the race of the cell with the end of the pass. Without any record the first
  wait ends only when the iterator is ended, and the header is returned then.
\<close>

record thread =
  header :: "nat \<times> item"
  kids :: "(nat \<times> item) run_result"
  moreLink_promise :: "string settled"

definition commentsGenerator ::
  "(string \<Rightarrow> string) \<Rightarrow> (string \<Rightarrow> jsnum) \<Rightarrow> (string \<Rightarrow> string)
     \<Rightarrow> thread_event step list \<times> ending \<Rightarrow> thread settled" where
  "commentsGenerator unescape toNumber blockquotify response =
     (case comments_pass unescape toNumber blockquotify (fst response) of
        (s, c) \<Rightarrow>
          (case returned c of
             None \<Rightarrow>
               if consume (transformed s (snd response))
               then Fulfilled
                 \<lparr> header = (post_ref, fix_post_text blockquotify (heap s post_ref)),
                   kids = Done [],
                   moreLink_promise =
                     (case moreLink s of Some v \<Rightarrow> Fulfilled v | None \<Rightarrow> Fulfilled []) \<rparr>
               else Pending
           | Some h \<Rightarrow>
               Fulfilled
                 \<lparr> header = (post_ref, h),
                   kids = (if consume (transformed s (snd response)) then Done (out c)
                           else Hang (out c)),
                   moreLink_promise =
                     (case moreLink s of Some v \<Rightarrow> Fulfilled v
                      | None \<Rightarrow> if consume (transformed s (snd response)) then Fulfilled []
                                else Rejected) \<rparr>))"


section \<open>Reading a pass\<close>

text \<open>
  The references of the next-page anchors a pass meets, in document order, and the
  continuation they determine: the unescaped reference of the first anchor, or the empty
  string when there is none. \<open>first_resolved\<close> is the content of the cell after these
  anchors.
\<close>

fun morelink_hrefs :: "stories_event list \<Rightarrow> string list" where
  "morelink_hrefs [] = []"
| "morelink_hrefs (MoreLink h # es) = h # morelink_hrefs es"
| "morelink_hrefs (_ # es) = morelink_hrefs es"

fun next_hrefs :: "thread_event list \<Rightarrow> string list" where
  "next_hrefs [] = []"
| "next_hrefs (MoreLinkNext h # es) = h # next_hrefs es"
| "next_hrefs (_ # es) = next_hrefs es"

definition continuation :: "(string \<Rightarrow> string) \<Rightarrow> string list \<Rightarrow> string" where
  "continuation unescape hrefs = (case hrefs of [] \<Rightarrow> [] | h # _ \<Rightarrow> unescape h)"

definition first_resolved :: "(string \<Rightarrow> string) \<Rightarrow> string option \<Rightarrow> string list \<Rightarrow> string option" where
  "first_resolved unescape cell hrefs =
     (case cell of Some v \<Rightarrow> Some v
      | None \<Rightarrow> (case hrefs of [] \<Rightarrow> None | h # _ \<Rightarrow> Some (unescape h)))"

section \<open>Reading a schedule\<close>

text \<open>
  The number of pulls of a schedule. \<open>synced\<close>: the loop has been handed the first
  \<open>taken\<close> references dispatched, in order. \<open>wf_refs\<close>: every reference dispatched, and
  the one under construction, has been allocated. \<open>id_at\<close> reads the identifier of the
  object at a reference.
\<close>

definition pulls :: "'e step list \<Rightarrow> nat" where
  "pulls steps = length (filter (\<lambda>x. case x of Pull \<Rightarrow> True | Handler e \<Rightarrow> False) steps)"

definition synced :: "'a channel_scheme \<times> 'b consumer_scheme \<Rightarrow> bool" where
  "synced sc = (taken (snd sc) \<le> length (dispatched (fst sc))
     \<and> map fst (out (snd sc)) = take (taken (snd sc)) (dispatched (fst sc)))"

definition wf_refs :: "nat option \<Rightarrow> 'a channel_scheme \<Rightarrow> bool" where
  "wf_refs pending s = (list_all (\<lambda>a. a < fresh s) (dispatched s)
     \<and> (case pending of None \<Rightarrow> True | Some p \<Rightarrow> p < fresh s))"

definition id_at :: "'a channel_scheme \<Rightarrow> nat \<Rightarrow> jsnum option" where
  "id_at s a = id_fld (heap s a)"

text \<open>
  The \<^verbatim>\<open>id\<close> attributes of the start-of-record elements of a listings pass, in document
  order; the identifier of the record under construction; the elements whose handler
  dispatches a record: a start-of-record element and the terminal selector. \<open>accounted\<close>
  lists the identifiers of the records yielded, then of those dispatched and not yet
  handed over, then of the record under construction.
\<close>

fun athing_ids :: "stories_event list \<Rightarrow> string list" where
  "athing_ids [] = []"
| "athing_ids (Athing a # es) = a # athing_ids es"
| "athing_ids (_ # es) = athing_ids es"

definition pending_id :: "stories_state \<Rightarrow> jsnum option list" where
  "pending_id s = (case post s of None \<Rightarrow> [] | Some p \<Rightarrow> [id_at s p])"


definition accounted :: "stories_state \<times> consumer \<Rightarrow> jsnum option list" where
  "accounted sc = map (\<lambda>y. id_fld (snd y)) (out (snd sc))
     @ map (id_at (fst sc)) (drop (taken (snd sc)) (dispatched (fst sc)))
     @ pending_id (fst sc)"

text \<open>The same for the comments of a comment pass.\<close>

fun comtr_ids :: "thread_event list \<Rightarrow> string list" where
  "comtr_ids [] = []"
| "comtr_ids (Scrape (Comtr a) # es) = a # comtr_ids es"
| "comtr_ids (_ # es) = comtr_ids es"

definition pending_comment_id :: "scrape_state \<Rightarrow> jsnum option list" where
  "pending_comment_id s = (case comment s of None \<Rightarrow> [] | Some p \<Rightarrow> [id_at s p])"

definition accounted_comments :: "scrape_state \<times> consumer \<Rightarrow> jsnum option list" where
  "accounted_comments sc = map (\<lambda>y. id_fld (snd y)) (out (snd sc))
     @ map (id_at (fst sc)) (drop (taken (snd sc)) (dispatched (fst sc)))
     @ pending_comment_id (fst sc)"


text \<open>
  On a thread page the first record handed over is dropped and the header returned: the
  comment sequence has then been handed the references dispatched after the first, and
  the header is returned exactly when a record has been taken.
\<close>

definition synced_page :: "scrape_state \<times> page_consumer \<Rightarrow> bool" where
  "synced_page sc = (taken (snd sc) \<le> length (dispatched (fst sc))
     \<and> map fst (out (snd sc)) = take (taken (snd sc) - 1) (tl (dispatched (fst sc)))
     \<and> (returned (snd sc) = None) = (taken (snd sc) = 0))"

text \<open>
  \<open>before_tree\<close>: the elements of the focused item whose handler returns (a void child
  element makes it throw) and the next-page anchors. \<open>tree_first\<close>: the header was
  dispatched first and only once. \<open>sets_id\<close>: the element \<^verbatim>\<open>.fatitem .athing[id]\<close>, the
  only one whose handler writes the identifier of the header. \<open>story_inv i\<close>: the header
  has the identifier \<open>i\<close>, as it had when it was returned, and every comment yielded has
  the story \<open>i\<close>.
\<close>

fun before_tree :: "thread_event \<Rightarrow> bool" where
  "before_tree (Header (FatCellChild n a v)) = (\<not> v)"
| "before_tree (Header (FatCommtextChild n a v)) = (\<not> v)"
| "before_tree (Header e) = True"
| "before_tree (MoreLinkNext h) = True"
| "before_tree (Scrape e) = False"
| "before_tree CommentTree = False"

definition tree_first :: "scrape_state \<times> page_consumer \<Rightarrow> bool" where
  "tree_first sc = ((\<exists>cs. dispatched (fst sc) = post_ref # cs \<and> post_ref \<notin> set cs)
     \<and> comment (fst sc) \<noteq> Some post_ref \<and> post_ref < fresh (fst sc))"

fun sets_id :: "thread_event \<Rightarrow> bool" where
  "sets_id (Header (FatAthing a)) = True"
| "sets_id e = False"

definition story_inv :: "jsnum option \<Rightarrow> scrape_state \<times> page_consumer \<Rightarrow> bool" where
  "story_inv i sc = (post_ref < fresh (fst sc) \<and> id_at (fst sc) post_ref = i
     \<and> list_all (\<lambda>y. story (snd y) = i) (out (snd sc))
     \<and> (case returned (snd sc) of None \<Rightarrow> True | Some h \<Rightarrow> id_fld h = i))"

section \<open>Properties\<close>

subsection \<open>Repairing a comment\<close>




text \<open>
  No handler marks a comment deleted, and every comment has a body from its start on: as
  long as the handlers alone have written to the records, every record allocated is
  unmarked and has a body. So a comment satisfies these premises when \<open>fixComment\<close> is
  first applied to it.
\<close>

lemma scrapeComments_unmarked:
  assumes "\<forall>a < fresh s. deleted (heap s a) = None \<and> text_fld (heap s a) \<noteq> None"
  shows "\<forall>a < fresh (scrapeComments N s e).
           deleted (heap (scrapeComments N s e) a) = None
           \<and> text_fld (heap (scrapeComments N s e) a) \<noteq> None"
  using assms
  by (cases e)
     (auto simp: dispatchEvent_def alloc_def assign_def throw_def open_child_def Let_def
           empty_item_def append_str_def less_Suc_eq split: option.splits)

subsection \<open>Runs of a schedule and the continuation cell\<close>

lemma run_Nil: "run h p sc [] = sc"
  by (simp add: run_def)

lemma run_Cons: "run h p sc (x # xs) = run h p (advance h p sc x) xs"
  by (simp add: run_def)

lemma run_append: "run h p sc (xs @ ys) = run h p (run h p sc xs) ys"
  by (simp add: run_def)

lemma events_of_append: "events_of (xs @ ys) = events_of xs @ events_of ys"
  by (induction xs rule: events_of.induct) simp_all

lemma events_of_replicate_Pull: "events_of (replicate n Pull) = []"
  by (induction n) simp_all

lemma funpow_as_run: "(p ^^ n) sc = run h p sc (replicate n Pull)"
proof (induction n arbitrary: sc)
  case 0
  then show ?case by (simp add: run_Nil)
next
  case (Suc n)
  have "(p ^^ Suc n) sc = (p ^^ n) (p sc)"
    by (simp add: funpow_swap1)
  also have "\<dots> = run h p (p sc) (replicate n Pull)"
    by (rule Suc.IH)
  also have "\<dots> = run h p sc (replicate (Suc n) Pull)"
    by (cases sc) (simp add: run_Cons)
  finally show ?case .
qed

lemma pass_as_run:
  "pass h p sc steps
     = run h p sc (steps @ replicate (length (dispatched (fst (run h p sc steps)))
                                       - taken (snd (run h p sc steps))) Pull)"
  by (simp add: pass_def drain_def run_append funpow_as_run [where h = h])

lemma pull_frame:
  "thrown (fst (pull b sc)) = thrown (fst sc)"
  "dispatched (fst (pull b sc)) = dispatched (fst sc)"
  "moreLink (fst (pull b sc)) = moreLink (fst sc)"
  "fresh (fst (pull b sc)) = fresh (fst sc)"
  by (cases sc; simp add: pull_def Let_def)+

lemma pull_page_frame:
  "thrown (fst (pull_page bq sc)) = thrown (fst sc)"
  "dispatched (fst (pull_page bq sc)) = dispatched (fst sc)"
  "moreLink (fst (pull_page bq sc)) = moreLink (fst sc)"
  "fresh (fst (pull_page bq sc)) = fresh (fst sc)"
  "comment (fst (pull_page bq sc)) = comment (fst sc)"
  by (cases sc; simp add: pull_page_def pull_def return_post_def assign_def Let_def
        split: option.splits)+

lemma advance_thrown:
  assumes "\<And>x. thrown (fst (p x)) = thrown (fst x)" and "thrown (fst sc)"
  shows "thrown (fst (advance h p sc x))"
  using assms by (cases sc; cases x) simp_all

lemma run_thrown:
  assumes "\<And>x. thrown (fst (p x)) = thrown (fst x)" and "thrown (fst sc)"
  shows "thrown (fst (run h p sc steps))"
  using assms(2)
proof (induction steps arbitrary: sc)
  case Nil
  then show ?case by (simp add: run_Nil)
next
  case (Cons x xs)
  show ?case
    unfolding run_Cons by (rule Cons.IH) (rule advance_thrown [OF assms(1) Cons.prems])
qed

text \<open>The cell after a pass in which no handler throws\<close>

lemma run_moreLink:
  assumes pf: "\<And>x. thrown (fst (p x)) = thrown (fst x)"
    and pm: "\<And>x. moreLink (fst (p x)) = moreLink (fst x)"
    and hm: "\<And>s e. moreLink (h s e) = first_resolved u (moreLink s) (hr [e])"
    and hc: "\<And>c e es. first_resolved u (first_resolved u c (hr [e])) (hr es)
                        = first_resolved u c (hr (e # es))"
    and h0: "\<And>c. first_resolved u c (hr []) = c"
    and nt: "\<not> thrown (fst (run h p sc steps))"
  shows "moreLink (fst (run h p sc steps))
           = first_resolved u (moreLink (fst sc)) (hr (events_of steps))"
  using nt
proof (induction steps arbitrary: sc)
  case Nil
  then show ?case by (simp add: run_Nil h0)
next
  case (Cons x xs)
  have nt1: "\<not> thrown (fst (advance h p sc x))"
    using Cons.prems run_thrown [OF pf, of "advance h p sc x" h xs] by (auto simp: run_Cons)
  then have nt0: "\<not> thrown (fst sc)"
    using advance_thrown [OF pf, of sc h x] by auto
  have ih: "moreLink (fst (run h p (advance h p sc x) xs))
      = first_resolved u (moreLink (fst (advance h p sc x))) (hr (events_of xs))"
    using Cons.IH [of "advance h p sc x"] Cons.prems by (simp add: run_Cons)
  show ?case
  proof (cases x)
    case (Handler e)
    then have "moreLink (fst (advance h p sc x)) = first_resolved u (moreLink (fst sc)) (hr [e])"
      using nt0 hm by (cases sc) simp
    then show ?thesis using ih Handler hc by (simp add: run_Cons)
  next
    case Pull
    then have "moreLink (fst (advance h p sc x)) = moreLink (fst sc)"
      using pm by (cases sc) simp
    then show ?thesis using ih Pull by (simp add: run_Cons)
  qed
qed

lemma first_resolved_Nil: "first_resolved u c [] = c"
  by (simp add: first_resolved_def split: option.splits)

lemma stories_handler_moreLink:
  "moreLink (stories_handler u N s e) = first_resolved u (moreLink s) (morelink_hrefs [e])"
  by (cases e)
     (auto simp: first_resolved_def resolve_def dispatchEvent_def alloc_def assign_def throw_def
           split: option.splits)

lemma first_resolved_Cons:
  "first_resolved u (first_resolved u c (morelink_hrefs [e])) (morelink_hrefs es)
     = first_resolved u c (morelink_hrefs (e # es))"
  by (cases e) (auto simp: first_resolved_def split: option.splits list.splits)

lemma resolve_first_resolved:
  "resolve (first_resolved u None hs) [] = Some (continuation u hs)"
  by (simp add: resolve_def first_resolved_def continuation_def split: list.splits)

lemma stories_pass_moreLink:
  assumes "\<not> thrown (fst (stories_pass u N steps))"
  shows "moreLink (fst (stories_pass u N steps))
           = first_resolved u None (morelink_hrefs (events_of steps))"
proof -
  let ?n = "length (dispatched (fst (run (stories_handler u N) (pull stories_body)
                (stories_init, consumer_init) steps)))
            - taken (snd (run (stories_handler u N) (pull stories_body)
                (stories_init, consumer_init) steps))"
  have eq: "stories_pass u N steps
      = run (stories_handler u N) (pull stories_body) (stories_init, consumer_init)
          (steps @ replicate ?n Pull)"
    by (simp add: stories_pass_def pass_as_run)
  have "moreLink (fst (run (stories_handler u N) (pull stories_body) (stories_init, consumer_init)
          (steps @ replicate ?n Pull)))
      = first_resolved u (moreLink (fst (stories_init, consumer_init)))
          (morelink_hrefs (events_of (steps @ replicate ?n Pull)))"
    by (rule run_moreLink [where hr = morelink_hrefs])
       (use assms eq in \<open>simp_all add: pull_frame stories_handler_moreLink first_resolved_Cons
          first_resolved_Nil\<close>)
  then show ?thesis
    by (simp add: eq events_of_append events_of_replicate_Pull stories_init_def)
qed

subsection \<open>What the loop is handed\<close>

lemma run_invariant:
  assumes "\<And>s c e. \<not> thrown s \<Longrightarrow> P (s, c) \<Longrightarrow> P (h s e, c)"
    and "\<And>x. P x \<Longrightarrow> P (p x)"
    and "P sc"
  shows "P (run h p sc steps)"
  using assms(3)
proof (induction steps arbitrary: sc)
  case Nil
  then show ?case by (simp add: run_Nil)
next
  case (Cons x xs)
  have "P (advance h p sc x)"
    using Cons.prems assms(1,2) by (cases sc; cases x) auto
  then show ?case unfolding run_Cons by (rule Cons.IH)
qed

lemma funpow_frame:
  assumes "\<And>x. f (p x) = f x"
  shows "f ((p ^^ n) x) = f x"
  by (induction n) (simp_all add: assms)

lemma pull_synced: "synced sc \<Longrightarrow> synced (pull b sc)"
  by (cases sc) (auto simp: synced_def pull_def Let_def take_Suc_conv_app_nth)

lemma handler_synced:
  assumes "\<exists>ys. dispatched s' = dispatched s @ ys" and "synced (s, c)"
  shows "synced (s', c)"
  using assms by (auto simp: synced_def)

lemma pull_taken:
  assumes "taken (snd sc) \<le> length (dispatched (fst sc))"
  shows "taken (snd ((pull b ^^ n) sc)) = min (taken (snd sc) + n) (length (dispatched (fst sc)))"
  using assms
proof (induction n arbitrary: sc)
  case 0
  then show ?case by simp
next
  case (Suc n)
  have le: "taken (snd (pull b sc)) \<le> length (dispatched (fst (pull b sc)))"
    using Suc.prems by (cases sc) (auto simp: pull_def Let_def)
  have "taken (snd ((pull b ^^ Suc n) sc)) = taken (snd ((pull b ^^ n) (pull b sc)))"
    by (simp add: funpow_swap1)
  also have "\<dots> = min (taken (snd (pull b sc)) + n) (length (dispatched (fst (pull b sc))))"
    by (rule Suc.IH [OF le])
  also have "\<dots> = min (taken (snd sc) + Suc n) (length (dispatched (fst sc)))"
    using Suc.prems by (cases sc) (auto simp: pull_def Let_def)
  finally show ?case .
qed



lemma synced_init: "synced (s, consumer_init)"
  by (simp add: synced_def consumer_init_def)

lemma stories_handler_ext:
  "\<exists>ys. dispatched (stories_handler u N s e) = dispatched s @ ys"
  by (cases e)
     (auto simp: dispatchEvent_def alloc_def assign_def throw_def split: option.splits)


lemma stories_handler_wf:
  "wf_refs (post s) s \<Longrightarrow> wf_refs (post (stories_handler u N s e)) (stories_handler u N s e)"
  by (cases e)
     (auto simp: wf_refs_def dispatchEvent_def alloc_def assign_def throw_def list_all_iff
           split: option.splits intro: less_SucI)

lemma pull_wf: "wf_refs (post (fst sc)) (fst sc) \<Longrightarrow> wf_refs (post (fst (pull b sc))) (fst (pull b sc))"
  by (cases sc) (auto simp: wf_refs_def pull_def Let_def split: option.splits)

lemma id_fld_stories_body: "id_fld (stories_body p) = id_fld p"
  by (simp add: stories_body_def Let_def)

lemma pull_accounted:
  assumes "taken (snd sc) \<le> length (dispatched (fst sc))"
  shows "accounted (pull stories_body sc) = accounted sc"
proof (cases sc)
  case (Pair s c)
  show ?thesis
  proof (cases "taken c < length (dispatched s)")
    case True
    let ?a = "dispatched s ! taken c"
    let ?s' = "s\<lparr>heap := (heap s)(?a := stories_body (heap s ?a))\<rparr>"
    have ids: "id_at ?s' = id_at s"
      by (rule ext) (simp add: id_at_def id_fld_stories_body)
    have dr: "drop (taken c) (dispatched s) = ?a # drop (Suc (taken c)) (dispatched s)"
      using True by (simp add: Cons_nth_drop_Suc)
    have pe: "pending_id ?s' = pending_id s"
      using ids by (simp add: pending_id_def split: option.splits)
    show ?thesis
      using True Pair ids dr pe
      by (simp add: accounted_def pull_def Let_def id_fld_stories_body id_at_def)
  next
    case False
    then show ?thesis using Pair by (simp add: pull_def)
  qed
qed

lemma map_id_at_cong:
  assumes "list_all (\<lambda>a. a < n) xs" and "\<And>a. a < n \<Longrightarrow> id_at s' a = id_at s a"
  shows "map (id_at s') xs = map (id_at s) xs"
  using assms by (induction xs) auto

lemma stories_handler_accounted:
  assumes wf: "wf_refs (post s) s" and tk: "taken c \<le> length (dispatched s)"
    and ne: "e \<noteq> YcLinks"
  shows "accounted (stories_handler u N s e, c)
           = accounted (s, c) @ map (\<lambda>a. Some (N a)) (athing_ids [e])"
proof -
  let ?s' = "stories_handler u N s e"
  have keep: "id_at ?s' a = id_at s a" if "a < fresh s" for a
    using that
    by (cases e) (auto simp: id_at_def dispatchEvent_def alloc_def assign_def throw_def
                       split: option.splits)
  have dl: "list_all (\<lambda>a. a < fresh s) (drop (taken c) (dispatched s))"
    using wf by (auto simp: wf_refs_def list_all_iff dest: in_set_dropD)
  have old: "map (id_at ?s') (drop (taken c) (dispatched s))
      = map (id_at s) (drop (taken c) (dispatched s))"
    by (rule map_id_at_cong [OF dl]) (rule keep)
  show ?thesis
  proof (cases e)
    case (Athing a)
    show ?thesis
    proof (cases "post s")
      case None
      then show ?thesis
        using Athing old tk
        by (simp add: accounted_def pending_id_def id_at_def alloc_def)
    next
      case (Some p)
      then have "p < fresh s" using wf by (simp add: wf_refs_def)
      then have kp: "id_at ?s' p = id_at s p" by (rule keep)
      have d: "dispatched ?s' = dispatched s @ [p]"
        using Athing Some by (simp add: alloc_def dispatchEvent_def)
      have pe: "pending_id ?s' = [Some (N a)]"
        using Athing Some by (simp add: pending_id_def id_at_def alloc_def dispatchEvent_def)
      show ?thesis
        using Athing Some old tk kp d pe
        by (simp add: accounted_def pending_id_def)
    qed
  next
    case YcLinks
    then show ?thesis using ne by simp
  qed (use old wf in \<open>auto simp: accounted_def pending_id_def id_at_def assign_def throw_def
         wf_refs_def split: option.splits\<close>)
qed

subsection \<open>Identifiers of the records of a listings pass\<close>

lemma run_invariant_on:
  assumes "list_all Q (events_of steps)"
    and "\<And>s c e. Q e \<Longrightarrow> \<not> thrown s \<Longrightarrow> P (s, c) \<Longrightarrow> P (h s e, c)"
    and "\<And>x. P x \<Longrightarrow> P (p x)"
    and "P sc"
  shows "P (run h p sc steps)"
  using assms(1,4)
proof (induction steps arbitrary: sc)
  case Nil
  then show ?case by (simp add: run_Nil)
next
  case (Cons x xs)
  have "P (advance h p sc x)"
    using Cons.prems assms(2,3) by (cases sc; cases x) auto
  moreover have "list_all Q (events_of xs)"
    using Cons.prems(1) by (cases x) simp_all
  ultimately show ?case unfolding run_Cons by (rule Cons.IH [rotated])
qed

lemma pass_pull_taken:
  assumes "\<And>s e. \<exists>ys. dispatched (h s e) = dispatched s @ ys" and "synced sc"
  shows "taken (snd (pass h (pull b) sc steps)) = length (dispatched (fst (pass h (pull b) sc steps)))"
proof -
  let ?r = "run h (pull b) sc steps"
  have sr: "synced ?r"
    by (rule run_invariant [where P = synced])
       (use assms handler_synced pull_synced in blast)+
  then show ?thesis
    by (simp add: pass_def drain_def pull_taken synced_def funpow_frame [where f = "\<lambda>x. dispatched (fst x)"] pull_frame)
qed

lemma athing_ids_Cons: "athing_ids (e # es) = athing_ids [e] @ athing_ids es"
  by (cases e) simp_all

lemma stories_run_accounted:
  assumes "YcLinks \<notin> set (events_of steps)"
    and "\<not> thrown (fst (run (stories_handler u N) (pull stories_body) sc steps))"
    and "wf_refs (post (fst sc)) (fst sc)"
    and "taken (snd sc) \<le> length (dispatched (fst sc))"
  shows "accounted (run (stories_handler u N) (pull stories_body) sc steps)
           = accounted sc @ map (\<lambda>a. Some (N a)) (athing_ids (events_of steps))"
  using assms
proof (induction steps arbitrary: sc)
  case Nil
  then show ?case by (simp add: run_Nil)
next
  case (Cons x xs)
  let ?h = "stories_handler u N" and ?p = "pull stories_body"
  obtain s c where sc: "sc = (s, c)" by (cases sc)
  have nt1: "\<not> thrown (fst (advance ?h ?p sc x))"
    using Cons.prems(2) run_thrown [of ?p "advance ?h ?p sc x" ?h xs]
    by (auto simp: run_Cons pull_frame)
  then have nt0: "\<not> thrown s"
    using advance_thrown [of ?p sc ?h x] sc by (auto simp: pull_frame)
  have wf1: "wf_refs (post (fst (advance ?h ?p sc x))) (fst (advance ?h ?p sc x))"
    using Cons.prems(3) sc stories_handler_wf [of s u N] pull_wf [of sc stories_body]
    by (cases x) (simp_all add: nt0)
  have tk1: "taken (snd (advance ?h ?p sc x)) \<le> length (dispatched (fst (advance ?h ?p sc x)))"
  proof (cases x)
    case (Handler e)
    then show ?thesis
      using Cons.prems(4) sc nt0 stories_handler_ext [of u N s e] by auto
  next
    case Pull
    then show ?thesis
      using Cons.prems(4) sc by (auto simp: pull_def Let_def)
  qed
  have st: "accounted (advance ?h ?p sc x)
      = accounted sc @ map (\<lambda>a. Some (N a)) (athing_ids (events_of [x]))"
  proof (cases x)
    case (Handler e)
    then have "e \<noteq> YcLinks" using Cons.prems(1) by auto
    then show ?thesis
      using Handler sc nt0 Cons.prems(3,4) stories_handler_accounted [of s c e u N] by simp
  next
    case Pull
    then show ?thesis
      using sc Cons.prems(4) pull_accounted [of sc] by simp
  qed
  have ny: "YcLinks \<notin> set (events_of xs)"
    using Cons.prems(1) by (cases x) simp_all
  have ev: "athing_ids (events_of (x # xs)) = athing_ids (events_of [x]) @ athing_ids (events_of xs)"
    by (cases x) (simp_all add: athing_ids_Cons [of _ "events_of xs"])
  have "accounted (run ?h ?p sc (x # xs))
      = accounted (advance ?h ?p sc x) @ map (\<lambda>a. Some (N a)) (athing_ids (events_of xs))"
    unfolding run_Cons
    by (rule Cons.IH [OF ny _ wf1 tk1]) (use Cons.prems(2) in \<open>simp add: run_Cons\<close>)
  then show ?case by (simp add: st ev)
qed

lemma stories_handler_pending:
  "\<not> thrown (stories_handler u N s e) \<Longrightarrow>
     (post (stories_handler u N s e) = None) = (post s = None \<and> athing_ids [e] = [])"
  by (cases e)
     (auto simp: dispatchEvent_def alloc_def assign_def throw_def split: option.splits if_splits)

lemma pull_post: "post (fst (pull b sc)) = post (fst sc)"
  by (cases sc) (simp add: pull_def Let_def)

lemma stories_run_pending:
  assumes "\<not> thrown (fst (run (stories_handler u N) (pull stories_body) sc steps))"
  shows "(post (fst (run (stories_handler u N) (pull stories_body) sc steps)) = None)
           = (post (fst sc) = None \<and> athing_ids (events_of steps) = [])"
  using assms
proof (induction steps arbitrary: sc)
  case Nil
  then show ?case by (simp add: run_Nil)
next
  case (Cons x xs)
  let ?h = "stories_handler u N" and ?p = "pull stories_body"
  obtain s c where sc: "sc = (s, c)" by (cases sc)
  have nt1: "\<not> thrown (fst (advance ?h ?p sc x))"
    using Cons.prems run_thrown [of ?p "advance ?h ?p sc x" ?h xs]
    by (auto simp: run_Cons pull_frame)
  then have nt0: "\<not> thrown s"
    using advance_thrown [of ?p sc ?h x] sc by (auto simp: pull_frame)
  have st: "(post (fst (advance ?h ?p sc x)) = None)
      = (post (fst sc) = None \<and> athing_ids (events_of [x]) = [])"
  proof (cases x)
    case (Handler e)
    then show ?thesis
      using sc nt0 nt1 stories_handler_pending [of u N s e] by simp
  next
    case Pull
    then show ?thesis using sc pull_post [of stories_body sc] by simp
  qed
  have ev: "athing_ids (events_of (x # xs)) = athing_ids (events_of [x]) @ athing_ids (events_of xs)"
    by (cases x) (simp_all add: athing_ids_Cons [of _ "events_of xs"])
  show ?case
    using Cons.IH [of "advance ?h ?p sc x"] Cons.prems st ev by (simp add: run_Cons)
qed

lemma wf_stories_init: "wf_refs (post stories_init) stories_init"
  by (simp add: wf_refs_def stories_init_def)

lemma stories_sealed_ids:
  assumes "YcLinks \<notin> set (events_of steps)"
    and "\<not> thrown (fst (stories_pass u N steps))"
  shows "map (\<lambda>y. id_fld (snd y)) (out (snd (stories_pass u N steps)))
           = butlast (map (\<lambda>a. Some (N a)) (athing_ids (events_of steps)))"
proof -
  let ?h = "stories_handler u N" and ?p = "pull stories_body"
  let ?r = "run ?h ?p (stories_init, consumer_init) steps"
  let ?n = "length (dispatched (fst ?r)) - taken (snd ?r)"
  let ?f = "stories_pass u N steps"
  have eq: "?f = run ?h ?p (stories_init, consumer_init) (steps @ replicate ?n Pull)"
    by (simp add: stories_pass_def pass_as_run)
  have ev: "events_of (steps @ replicate ?n Pull) = events_of steps"
    by (simp add: events_of_append events_of_replicate_Pull)
  have acc: "accounted ?f = map (\<lambda>a. Some (N a)) (athing_ids (events_of steps))"
    using stories_run_accounted [of "steps @ replicate ?n Pull" u N "(stories_init, consumer_init)"]
      assms eq ev wf_stories_init
    by (simp add: accounted_def consumer_init_def pending_id_def stories_init_def)
  have pe: "(post (fst ?f) = None) = (athing_ids (events_of steps) = [])"
    using stories_run_pending [of u N "(stories_init, consumer_init)" "steps @ replicate ?n Pull"]
      assms(2) eq ev
    by (simp add: stories_init_def)
  have tk: "taken (snd ?f) = length (dispatched (fst ?f))"
    unfolding stories_pass_def
    by (rule pass_pull_taken) (simp_all add: stories_handler_ext synced_init)
  have a2: "accounted ?f = map (\<lambda>y. id_fld (snd y)) (out (snd ?f)) @ pending_id (fst ?f)"
    by (simp add: accounted_def tk)
  show ?thesis
  proof (cases "post (fst ?f)")
    case None
    then show ?thesis using acc a2 pe by (simp add: pending_id_def)
  next
    case (Some q)
    then have "butlast (map (\<lambda>y. id_fld (snd y)) (out (snd ?f)) @ [id_at (fst ?f) q])
        = butlast (map (\<lambda>a. Some (N a)) (athing_ids (events_of steps)))"
      using acc a2 by (simp add: pending_id_def)
    then show ?thesis by simp
  qed
qed

subsection \<open>Comment passes\<close>

lemma scrapeComments_moreLink: "moreLink (scrapeComments N s e) = moreLink s"
  by (cases e)
     (auto simp: dispatchEvent_def alloc_def assign_def throw_def open_child_def Let_def
           split: option.splits)

lemma fatitem_handler_frame:
  "moreLink (fatitem_handler u N s e) = moreLink s"
  "dispatched (fatitem_handler u N s e) = dispatched s"
  "fresh (fatitem_handler u N s e) = fresh s"
  "comment (fatitem_handler u N s e) = comment s"
  by (cases e; simp add: assign_def throw_def open_child_def Let_def)+

lemma threads_handler_moreLink:
  "moreLink (threads_handler u N s e) = first_resolved u (moreLink s) (next_hrefs [e])"
  by (cases e)
     (auto simp: first_resolved_def resolve_def scrapeComments_moreLink split: option.splits)

lemma comments_handler_moreLink:
  "moreLink (comments_handler u N s e) = first_resolved u (moreLink s) (next_hrefs [e])"
  by (cases e)
     (auto simp: first_resolved_def resolve_def dispatchEvent_def scrapeComments_moreLink
           fatitem_handler_frame split: option.splits)

lemma first_resolved_next_Cons:
  "first_resolved u (first_resolved u c (next_hrefs [e])) (next_hrefs es)
     = first_resolved u c (next_hrefs (e # es))"
  by (cases e) (auto simp: first_resolved_def split: option.splits list.splits)

lemma threads_pass_moreLink:
  assumes "\<not> thrown (fst (threads_pass u N bq steps))"
  shows "moreLink (fst (threads_pass u N bq steps))
           = first_resolved u None (next_hrefs (events_of steps))"
proof -
  let ?h = "threads_handler u N" and ?p = "pull (fixComment bq)"
  let ?n = "length (dispatched (fst (run ?h ?p (scrape_init, consumer_init) steps)))
            - taken (snd (run ?h ?p (scrape_init, consumer_init) steps))"
  have eq: "threads_pass u N bq steps
      = run ?h ?p (scrape_init, consumer_init) (steps @ replicate ?n Pull)"
    by (simp add: threads_pass_def pass_as_run)
  have "moreLink (fst (run ?h ?p (scrape_init, consumer_init) (steps @ replicate ?n Pull)))
      = first_resolved u (moreLink (fst (scrape_init, consumer_init)))
          (next_hrefs (events_of (steps @ replicate ?n Pull)))"
    by (rule run_moreLink [where hr = next_hrefs])
       (use assms eq in \<open>simp_all add: pull_frame threads_handler_moreLink first_resolved_next_Cons
          first_resolved_Nil\<close>)
  then show ?thesis
    by (simp add: eq events_of_append events_of_replicate_Pull scrape_init_def)
qed

lemma comments_pass_moreLink:
  assumes "\<not> thrown (fst (comments_pass u N bq steps))"
  shows "moreLink (fst (comments_pass u N bq steps))
           = first_resolved u None (next_hrefs (events_of steps))"
proof -
  let ?h = "comments_handler u N" and ?p = "pull_page bq"
  let ?n = "length (dispatched (fst (run ?h ?p (comments_init, page_init) steps)))
            - taken (snd (run ?h ?p (comments_init, page_init) steps))"
  have eq: "comments_pass u N bq steps
      = run ?h ?p (comments_init, page_init) (steps @ replicate ?n Pull)"
    by (simp add: comments_pass_def pass_as_run)
  have "moreLink (fst (run ?h ?p (comments_init, page_init) (steps @ replicate ?n Pull)))
      = first_resolved u (moreLink (fst (comments_init, page_init)))
          (next_hrefs (events_of (steps @ replicate ?n Pull)))"
    by (rule run_moreLink [where hr = next_hrefs])
       (use assms eq in \<open>simp_all add: pull_page_frame comments_handler_moreLink
          first_resolved_next_Cons first_resolved_Nil\<close>)
  then show ?thesis
    by (simp add: eq events_of_append events_of_replicate_Pull comments_init_def)
qed

lemma scrapeComments_ext:
  "\<exists>ys. dispatched (scrapeComments N s e) = dispatched s @ ys"
  by (cases e)
     (auto simp: dispatchEvent_def alloc_def assign_def throw_def open_child_def Let_def
           split: option.splits)

lemma threads_handler_ext:
  "\<exists>ys. dispatched (threads_handler u N s e) = dispatched s @ ys"
  by (cases e) (auto simp: scrapeComments_ext)

lemma comments_handler_ext:
  "\<exists>ys. dispatched (comments_handler u N s e) = dispatched s @ ys"
  by (cases e) (auto simp: scrapeComments_ext fatitem_handler_frame dispatchEvent_def)


lemma scrapeComments_wf:
  "wf_refs (comment s) s \<Longrightarrow> wf_refs (comment (scrapeComments N s e)) (scrapeComments N s e)"
  by (cases e)
     (auto simp: wf_refs_def dispatchEvent_def alloc_def assign_def throw_def open_child_def
           Let_def list_all_iff split: option.splits intro: less_SucI)

lemma threads_handler_wf:
  assumes "wf_refs (comment s) s"
  shows "wf_refs (comment (threads_handler u N s e)) (threads_handler u N s e)"
proof (cases e)
  case (Scrape x)
  then show ?thesis using scrapeComments_wf [OF assms] by simp
qed (use assms in \<open>auto simp: wf_refs_def split: option.splits\<close>)

lemma pull_comment: "comment (fst (pull b sc)) = comment (fst sc)"
  by (cases sc) (simp add: pull_def Let_def)

lemma pull_wf_comment:
  "wf_refs (comment (fst sc)) (fst sc) \<Longrightarrow> wf_refs (comment (fst (pull b sc))) (fst (pull b sc))"
  by (cases sc) (auto simp: wf_refs_def pull_def Let_def split: option.splits)

lemma id_fld_fixComment: "id_fld (fixComment bq c) = id_fld c"
  by (simp add: fixComment_def split: option.splits)

lemma pull_accounted_comments:
  assumes "taken (snd sc) \<le> length (dispatched (fst sc))"
  shows "accounted_comments (pull (fixComment bq) sc) = accounted_comments sc"
proof (cases sc)
  case (Pair s c)
  show ?thesis
  proof (cases "taken c < length (dispatched s)")
    case True
    let ?a = "dispatched s ! taken c"
    let ?s' = "s\<lparr>heap := (heap s)(?a := fixComment bq (heap s ?a))\<rparr>"
    have ids: "id_at ?s' = id_at s"
      by (rule ext) (simp add: id_at_def id_fld_fixComment)
    have dr: "drop (taken c) (dispatched s) = ?a # drop (Suc (taken c)) (dispatched s)"
      using True by (simp add: Cons_nth_drop_Suc)
    have pe: "pending_comment_id ?s' = pending_comment_id s"
      using ids by (simp add: pending_comment_id_def split: option.splits)
    show ?thesis
      using True Pair ids dr pe
      by (simp add: accounted_comments_def pull_def Let_def id_fld_fixComment id_at_def)
  next
    case False
    then show ?thesis using Pair by (simp add: pull_def)
  qed
qed

lemma scrapeComments_keeps_id:
  "a < fresh s \<Longrightarrow> id_at (scrapeComments N s e) a = id_at s a"
  by (cases e)
     (auto simp: id_at_def dispatchEvent_def alloc_def assign_def throw_def open_child_def
           Let_def split: option.splits)

lemma threads_handler_accounted:
  assumes wf: "wf_refs (comment s) s" and tk: "taken c \<le> length (dispatched s)"
    and ne: "e \<noteq> Scrape CommentYcLinks"
  shows "accounted_comments (threads_handler u N s e, c)
           = accounted_comments (s, c) @ map (\<lambda>a. Some (N a)) (comtr_ids [e])"
proof (cases e)
  case (Scrape x)
  let ?s' = "scrapeComments N s x"
  have dl: "list_all (\<lambda>a. a < fresh s) (drop (taken c) (dispatched s))"
    using wf by (auto simp: wf_refs_def list_all_iff dest: in_set_dropD)
  have old: "map (id_at ?s') (drop (taken c) (dispatched s))
      = map (id_at s) (drop (taken c) (dispatched s))"
    by (rule map_id_at_cong [OF dl]) (rule scrapeComments_keeps_id)
  show ?thesis
  proof (cases x)
    case (Comtr a)
    show ?thesis
    proof (cases "comment s")
      case None
      then show ?thesis
        using Scrape Comtr old tk
        by (simp add: accounted_comments_def pending_comment_id_def id_at_def alloc_def)
    next
      case (Some p)
      then have "p < fresh s" using wf by (simp add: wf_refs_def)
      then have kp: "id_at ?s' p = id_at s p" by (rule scrapeComments_keeps_id)
      have d: "dispatched ?s' = dispatched s @ [p]"
        using Comtr Some by (simp add: alloc_def dispatchEvent_def)
      have pe: "pending_comment_id ?s' = [Some (N a)]"
        using Comtr Some by (simp add: pending_comment_id_def id_at_def alloc_def dispatchEvent_def)
      show ?thesis
        using Scrape Comtr Some old tk kp d pe
        by (simp add: accounted_comments_def pending_comment_id_def)
    qed
  next
    case CommentYcLinks
    then show ?thesis using ne Scrape by simp
  qed (use Scrape old wf in \<open>auto simp: accounted_comments_def pending_comment_id_def id_at_def
         assign_def throw_def open_child_def Let_def wf_refs_def split: option.splits\<close>)
qed (auto simp: accounted_comments_def pending_comment_id_def id_at_def split: option.splits)

lemma comtr_ids_Cons: "comtr_ids (e # es) = comtr_ids [e] @ comtr_ids es"
proof (cases e)
  case (Scrape c)
  then show ?thesis by (cases c) simp_all
qed simp_all

lemma threads_run_accounted:
  assumes "Scrape CommentYcLinks \<notin> set (events_of steps)"
    and "\<not> thrown (fst (run (threads_handler u N) (pull (fixComment bq)) sc steps))"
    and "wf_refs (comment (fst sc)) (fst sc)"
    and "taken (snd sc) \<le> length (dispatched (fst sc))"
  shows "accounted_comments (run (threads_handler u N) (pull (fixComment bq)) sc steps)
           = accounted_comments sc @ map (\<lambda>a. Some (N a)) (comtr_ids (events_of steps))"
  using assms
proof (induction steps arbitrary: sc)
  case Nil
  then show ?case by (simp add: run_Nil)
next
  case (Cons x xs)
  let ?h = "threads_handler u N" and ?p = "pull (fixComment bq)"
  obtain s c where sc: "sc = (s, c)" by (cases sc)
  have nt1: "\<not> thrown (fst (advance ?h ?p sc x))"
    using Cons.prems(2) run_thrown [of ?p "advance ?h ?p sc x" ?h xs]
    by (auto simp: run_Cons pull_frame)
  then have nt0: "\<not> thrown s"
    using advance_thrown [of ?p sc ?h x] sc by (auto simp: pull_frame)
  have wf1: "wf_refs (comment (fst (advance ?h ?p sc x))) (fst (advance ?h ?p sc x))"
    using Cons.prems(3) sc threads_handler_wf [of s u N] pull_wf_comment [of sc "fixComment bq"]
    by (cases x) (simp_all add: nt0)
  have tk1: "taken (snd (advance ?h ?p sc x)) \<le> length (dispatched (fst (advance ?h ?p sc x)))"
  proof (cases x)
    case (Handler e)
    then show ?thesis
      using Cons.prems(4) sc nt0 threads_handler_ext [of u N s e] by auto
  next
    case Pull
    then show ?thesis
      using Cons.prems(4) sc by (auto simp: pull_def Let_def)
  qed
  have st: "accounted_comments (advance ?h ?p sc x)
      = accounted_comments sc @ map (\<lambda>a. Some (N a)) (comtr_ids (events_of [x]))"
  proof (cases x)
    case (Handler e)
    then have "e \<noteq> Scrape CommentYcLinks" using Cons.prems(1) by auto
    then show ?thesis
      using Handler sc nt0 Cons.prems(3,4) threads_handler_accounted [of s c e u N] by simp
  next
    case Pull
    then show ?thesis
      using sc Cons.prems(4) pull_accounted_comments [of sc] by simp
  qed
  have ny: "Scrape CommentYcLinks \<notin> set (events_of xs)"
    using Cons.prems(1) by (cases x) simp_all
  have ev: "comtr_ids (events_of (x # xs)) = comtr_ids (events_of [x]) @ comtr_ids (events_of xs)"
    by (cases x) (simp_all add: comtr_ids_Cons [of _ "events_of xs"])
  have "accounted_comments (run ?h ?p sc (x # xs))
      = accounted_comments (advance ?h ?p sc x) @ map (\<lambda>a. Some (N a)) (comtr_ids (events_of xs))"
    unfolding run_Cons
    by (rule Cons.IH [OF ny _ wf1 tk1]) (use Cons.prems(2) in \<open>simp add: run_Cons\<close>)
  then show ?case by (simp add: st ev)
qed

lemma scrapeComments_pending:
  "\<not> thrown (scrapeComments N s e) \<Longrightarrow>
     (comment (scrapeComments N s e) = None) = (comment s = None \<and> comtr_ids [Scrape e] = [])"
  by (cases e)
     (auto simp: dispatchEvent_def alloc_def assign_def throw_def open_child_def Let_def
           split: option.splits if_splits)

lemma threads_handler_pending:
  assumes "\<not> thrown (threads_handler u N s e)"
  shows "(comment (threads_handler u N s e) = None) = (comment s = None \<and> comtr_ids [e] = [])"
proof (cases e)
  case (Scrape c)
  then show ?thesis using assms scrapeComments_pending [of N s c] by simp
qed auto

lemma threads_run_pending:
  assumes "\<not> thrown (fst (run (threads_handler u N) (pull (fixComment bq)) sc steps))"
  shows "(comment (fst (run (threads_handler u N) (pull (fixComment bq)) sc steps)) = None)
           = (comment (fst sc) = None \<and> comtr_ids (events_of steps) = [])"
  using assms
proof (induction steps arbitrary: sc)
  case Nil
  then show ?case by (simp add: run_Nil)
next
  case (Cons x xs)
  let ?h = "threads_handler u N" and ?p = "pull (fixComment bq)"
  obtain s c where sc: "sc = (s, c)" by (cases sc)
  have nt1: "\<not> thrown (fst (advance ?h ?p sc x))"
    using Cons.prems run_thrown [of ?p "advance ?h ?p sc x" ?h xs]
    by (auto simp: run_Cons pull_frame)
  then have nt0: "\<not> thrown s"
    using advance_thrown [of ?p sc ?h x] sc by (auto simp: pull_frame)
  have st: "(comment (fst (advance ?h ?p sc x)) = None)
      = (comment (fst sc) = None \<and> comtr_ids (events_of [x]) = [])"
  proof (cases x)
    case (Handler e)
    then show ?thesis
      using sc nt0 nt1 threads_handler_pending [of u N s e] by simp
  next
    case Pull
    then show ?thesis using sc pull_comment [of "fixComment bq" sc] by simp
  qed
  have ev: "comtr_ids (events_of (x # xs)) = comtr_ids (events_of [x]) @ comtr_ids (events_of xs)"
    by (cases x) (simp_all add: comtr_ids_Cons [of _ "events_of xs"])
  show ?case
    using Cons.IH [of "advance ?h ?p sc x"] Cons.prems st ev by (simp add: run_Cons)
qed

lemma wf_scrape_init: "wf_refs (comment scrape_init) scrape_init"
  by (simp add: wf_refs_def scrape_init_def)

lemma threads_sealed_ids:
  assumes "Scrape CommentYcLinks \<notin> set (events_of steps)"
    and "\<not> thrown (fst (threads_pass u N bq steps))"
  shows "map (\<lambda>y. id_fld (snd y)) (out (snd (threads_pass u N bq steps)))
           = butlast (map (\<lambda>a. Some (N a)) (comtr_ids (events_of steps)))"
proof -
  let ?h = "threads_handler u N" and ?p = "pull (fixComment bq)"
  let ?r = "run ?h ?p (scrape_init, consumer_init) steps"
  let ?n = "length (dispatched (fst ?r)) - taken (snd ?r)"
  let ?f = "threads_pass u N bq steps"
  have eq: "?f = run ?h ?p (scrape_init, consumer_init) (steps @ replicate ?n Pull)"
    by (simp add: threads_pass_def pass_as_run)
  have ev: "events_of (steps @ replicate ?n Pull) = events_of steps"
    by (simp add: events_of_append events_of_replicate_Pull)
  have acc: "accounted_comments ?f = map (\<lambda>a. Some (N a)) (comtr_ids (events_of steps))"
    using threads_run_accounted [of "steps @ replicate ?n Pull" u N bq "(scrape_init, consumer_init)"]
      assms eq ev wf_scrape_init
    by (simp add: accounted_comments_def consumer_init_def pending_comment_id_def scrape_init_def)
  have pe: "(comment (fst ?f) = None) = (comtr_ids (events_of steps) = [])"
    using threads_run_pending [of u N bq "(scrape_init, consumer_init)" "steps @ replicate ?n Pull"]
      assms(2) eq ev
    by (simp add: scrape_init_def)
  have tk: "taken (snd ?f) = length (dispatched (fst ?f))"
    unfolding threads_pass_def
    by (rule pass_pull_taken) (simp_all add: threads_handler_ext synced_init)
  have a2: "accounted_comments ?f
      = map (\<lambda>y. id_fld (snd y)) (out (snd ?f)) @ pending_comment_id (fst ?f)"
    by (simp add: accounted_comments_def tk)
  show ?thesis
  proof (cases "comment (fst ?f)")
    case None
    then show ?thesis using acc a2 pe by (simp add: pending_comment_id_def)
  next
    case (Some q)
    then have "butlast (map (\<lambda>y. id_fld (snd y)) (out (snd ?f)) @ [id_at (fst ?f) q])
        = butlast (map (\<lambda>a. Some (N a)) (comtr_ids (events_of steps)))"
      using acc a2 by (simp add: pending_comment_id_def)
    then show ?thesis by simp
  qed
qed

subsection \<open>Records under construction and the consumer of a thread page\<close>










lemma pull_page_synced: "synced_page sc \<Longrightarrow> synced_page (pull_page bq sc)"
proof (cases sc)
  case (Pair s c)
  assume a: "synced_page sc"
  show ?thesis
  proof (cases "taken c < length (dispatched s)")
    case False
    then show ?thesis using a Pair by (simp add: pull_page_def)
  next
    case True
    show ?thesis
    proof (cases "returned c")
      case None
      then show ?thesis
        using a Pair True
        by (cases "dispatched s")
           (auto simp: synced_page_def pull_page_def return_post_def assign_def)
    next
      case (Some h)
      then obtain n where n: "taken c = Suc n"
        using a Pair by (cases "taken c") (auto simp: synced_page_def)
      have "n < length (tl (dispatched s))" using True n by simp
      then have "take (Suc n) (tl (dispatched s))
          = take n (tl (dispatched s)) @ [dispatched s ! Suc n]"
        by (simp add: take_Suc_conv_app_nth nth_tl)
      then show ?thesis
        using a Pair True Some n
        by (simp add: synced_page_def pull_page_def pull_def Let_def)
    qed
  qed
qed

lemma handler_synced_page:
  assumes "\<exists>ys. dispatched s' = dispatched s @ ys" and "synced_page (s, c)"
  shows "synced_page (s', c)"
proof -
  obtain ys where d: "dispatched s' = dispatched s @ ys" using assms(1) by blast
  show ?thesis
  proof (cases "dispatched s")
    case Nil
    then show ?thesis using assms(2) d by (auto simp: synced_page_def)
  next
    case (Cons x xs)
    then show ?thesis using assms(2) d by (auto simp: synced_page_def)
  qed
qed

lemma pull_page_taken:
  assumes "taken (snd sc) \<le> length (dispatched (fst sc))"
  shows "taken (snd ((pull_page bq ^^ n) sc))
           = min (taken (snd sc) + n) (length (dispatched (fst sc)))"
  using assms
proof (induction n arbitrary: sc)
  case 0
  then show ?case by simp
next
  case (Suc n)
  have st: "taken (snd (pull_page bq sc))
      = (if taken (snd sc) < length (dispatched (fst sc)) then Suc (taken (snd sc))
         else taken (snd sc))"
    by (cases sc)
       (auto simp: pull_page_def pull_def return_post_def Let_def split: option.splits)
  have le: "taken (snd (pull_page bq sc)) \<le> length (dispatched (fst (pull_page bq sc)))"
    using Suc.prems st by (simp add: pull_page_frame)
  have "taken (snd ((pull_page bq ^^ Suc n) sc)) = taken (snd ((pull_page bq ^^ n) (pull_page bq sc)))"
    by (simp add: funpow_swap1)
  also have "\<dots> = min (taken (snd (pull_page bq sc)) + n)
      (length (dispatched (fst (pull_page bq sc))))"
    by (rule Suc.IH [OF le])
  also have "\<dots> = min (taken (snd sc) + Suc n) (length (dispatched (fst sc)))"
    using Suc.prems st by (auto simp: pull_page_frame)
  finally show ?case .
qed

lemma synced_page_init: "synced_page (s, page_init)"
  by (simp add: synced_page_def page_init_def)

lemma comments_pass_frame:
  "thrown (fst (comments_pass u N bq steps))
     = thrown (fst (run (comments_handler u N) (pull_page bq) (comments_init, page_init) steps))"
  "dispatched (fst (comments_pass u N bq steps))
     = dispatched (fst (run (comments_handler u N) (pull_page bq) (comments_init, page_init) steps))"
  "moreLink (fst (comments_pass u N bq steps))
     = moreLink (fst (run (comments_handler u N) (pull_page bq) (comments_init, page_init) steps))"
  unfolding comments_pass_def pass_def drain_def
  by (rule funpow_frame, simp add: pull_page_frame)+

lemma comments_pass_synced:
  "synced_page (comments_pass u N bq steps)
   \<and> taken (snd (comments_pass u N bq steps)) = length (dispatched (fst (comments_pass u N bq steps)))"
proof -
  let ?h = "comments_handler u N" and ?p = "pull_page bq"
  let ?r = "run ?h ?p (comments_init, page_init) steps"
  let ?n = "length (dispatched (fst ?r)) - taken (snd ?r)"
  have sr: "synced_page ?r"
    by (rule run_invariant [where P = synced_page])
       (use comments_handler_ext handler_synced_page pull_page_synced synced_page_init in blast)+
  have eq: "comments_pass u N bq steps = run ?h ?p (comments_init, page_init) (steps @ replicate ?n Pull)"
    by (simp add: comments_pass_def pass_as_run)
  have sp: "synced_page (comments_pass u N bq steps)"
    unfolding eq
    by (rule run_invariant [where P = synced_page])
       (use comments_handler_ext handler_synced_page pull_page_synced synced_page_init in blast)+
  have "taken (snd (comments_pass u N bq steps)) = length (dispatched (fst ?r))"
    using sr by (simp add: comments_pass_def pass_def drain_def pull_page_taken synced_page_def)
  then show ?thesis
    using sp by (simp add: comments_pass_frame)
qed

lemma comments_out_refs:
  "map fst (out (snd (comments_pass u N bq steps))) = tl (dispatched (fst (comments_pass u N bq steps)))"
  "(returned (snd (comments_pass u N bq steps)) = None)
     = (dispatched (fst (comments_pass u N bq steps)) = [])"
  using comments_pass_synced [of u N bq steps]
  by (auto simp: synced_page_def)

subsection \<open>The header of a thread page\<close>

lemma fatitem_handler_fresh: "fresh (fatitem_handler u N s e) = fresh s"
  by (cases e) (auto simp: assign_def throw_def open_child_def Let_def)

lemma fatitem_handler_comment:
  "comment (fatitem_handler u N (s :: scrape_state) e) = comment s"
  by (cases e) (auto simp: assign_def throw_def open_child_def Let_def)

lemma fatitem_handler_dispatched: "dispatched (fatitem_handler u N s e) = dispatched s"
  by (cases e) (auto simp: assign_def throw_def open_child_def Let_def)

lemma scrapeComments_fresh_mono: "fresh s \<le> fresh (scrapeComments N s e)"
  by (cases e)
     (auto simp: dispatchEvent_def alloc_def assign_def throw_def open_child_def Let_def
           split: option.splits)

lemma comments_handler_fresh_mono: "fresh s \<le> fresh (comments_handler u N s e)"
  by (cases e) (auto simp: fatitem_handler_fresh scrapeComments_fresh_mono dispatchEvent_def)

lemma comments_run_post_ref:
  "post_ref < fresh (fst (run (comments_handler u N) (pull_page bq) (comments_init, c) st))"
proof (rule run_invariant [where P = "\<lambda>x. post_ref < fresh (fst x)"])
  fix s :: scrape_state and c :: page_consumer and e
  assume "post_ref < fresh (fst (s, c))"
  then show "post_ref < fresh (fst (comments_handler u N s e, c))"
    using comments_handler_fresh_mono [of s u N e] by simp
qed (simp_all add: pull_page_frame comments_init_def)

lemma before_tree_handler:
  assumes "before_tree e" and "\<not> thrown s" and "dispatched s = []" and "comment s = None"
  shows "\<not> thrown (comments_handler u N s e) \<and> dispatched (comments_handler u N s e) = []
     \<and> comment (comments_handler u N s e) = None"
proof (cases e)
  case (Header x)
  then show ?thesis using assms
    by (cases x) (auto simp: assign_def throw_def open_child_def Let_def)
qed (use assms in auto)

lemma before_tree_run:
  assumes "list_all before_tree (events_of st)"
  shows "\<not> thrown (fst (run (comments_handler u N) (pull_page bq) (comments_init, c) st))
     \<and> dispatched (fst (run (comments_handler u N) (pull_page bq) (comments_init, c) st)) = []
     \<and> comment (fst (run (comments_handler u N) (pull_page bq) (comments_init, c) st)) = None"
  by (rule run_invariant_on [where Q = before_tree
        and P = "\<lambda>x. \<not> thrown (fst x) \<and> dispatched (fst x) = [] \<and> comment (fst x) = None",
        OF assms])
     (simp_all add: before_tree_handler pull_page_frame comments_init_def)

lemma scrapeComments_tree_first:
  assumes "tree_first (s, c)"
  shows "tree_first (scrapeComments N s e, c)"
  using assms
  by (cases e)
     (auto simp: tree_first_def dispatchEvent_def alloc_def assign_def throw_def open_child_def
           Let_def post_ref_def split: option.splits)

lemma comments_handler_tree_first:
  assumes "e \<noteq> CommentTree" and "tree_first (s, c)"
  shows "tree_first (comments_handler u N s e, c)"
proof (cases e)
  case (Header x)
  then show ?thesis using assms
    by (simp add: tree_first_def fatitem_handler_fresh fatitem_handler_comment
          fatitem_handler_dispatched)
next
  case (Scrape x)
  then show ?thesis using assms by (simp add: scrapeComments_tree_first)
qed (use assms in \<open>auto simp: tree_first_def\<close>)

lemma pull_page_tree_first: "tree_first x \<Longrightarrow> tree_first (pull_page bq x)"
  by (simp add: tree_first_def pull_page_frame)

lemma events_of_notin_list_all:
  "x \<notin> set es \<Longrightarrow> list_all (\<lambda>e. e \<noteq> x) es"
  by (auto simp: list_all_iff)

lemma comments_tree_dispatched:
  assumes b: "list_all before_tree (events_of st1)"
    and n: "CommentTree \<notin> set (events_of st2)"
  shows "\<exists>cs. dispatched (fst (comments_pass u N bq (st1 @ Handler CommentTree # st2)))
                = post_ref # cs \<and> post_ref \<notin> set cs"
proof -
  let ?h = "comments_handler u N" and ?p = "pull_page bq"
  let ?r1 = "run ?h ?p (comments_init, page_init) st1"
  obtain s1 c1 where r1: "?r1 = (s1, c1)" by (cases ?r1)
  have s1: "\<not> thrown s1" "dispatched s1 = []" "comment s1 = None"
    using before_tree_run [OF b, of u N bq page_init] r1 by simp_all
  have f1: "post_ref < fresh s1"
    using comments_run_post_ref [of u N bq page_init st1] r1 by simp
  let ?s2 = "?h s1 CommentTree"
  have t2: "tree_first (?s2, c1)"
    using s1 f1 by (simp add: tree_first_def dispatchEvent_def)
  have full: "run ?h ?p (comments_init, page_init) (st1 @ Handler CommentTree # st2)
      = run ?h ?p (?s2, c1) st2"
    using r1 s1 by (simp add: run_append run_Cons)
  have "tree_first (run ?h ?p (?s2, c1) st2)"
  proof (rule run_invariant_on [where Q = "\<lambda>e. e \<noteq> CommentTree" and P = tree_first,
          OF events_of_notin_list_all [OF n]])
    show "tree_first (?s2, c1)" by (rule t2)
  qed (simp_all add: comments_handler_tree_first pull_page_tree_first)
  then show ?thesis
    using full by (simp add: tree_first_def comments_pass_frame)
qed

lemma run_taken_le_pulls:
  "taken (snd (run (comments_handler u N) (pull_page bq) sc st)) \<le> taken (snd sc) + pulls st"
proof (induction st arbitrary: sc)
  case Nil
  then show ?case by (simp add: run_Nil)
next
  case (Cons x xs)
  have st: "taken (snd (advance (comments_handler u N) (pull_page bq) sc x))
      \<le> taken (snd sc) + pulls [x]"
    by (cases sc; cases x)
       (auto simp: pulls_def pull_page_def pull_def return_post_def Let_def split: option.splits)
  have "pulls (x # xs) = pulls [x] + pulls xs" by (simp add: pulls_def)
  then show ?case
    using Cons.IH [of "advance (comments_handler u N) (pull_page bq) sc x"] st
    by (simp add: run_Cons)
qed

lemma run_synced_page:
  "synced_page (run (comments_handler u N) (pull_page bq) (comments_init, page_init) st)"
  by (rule run_invariant [where P = synced_page])
     (use comments_handler_ext handler_synced_page pull_page_synced synced_page_init in blast)+

lemma kids_lazy:
  "length (out (snd (run (comments_handler u N) (pull_page bq) (comments_init, page_init) st)))
     \<le> pulls st - 1"
proof -
  let ?r = "run (comments_handler u N) (pull_page bq) (comments_init, page_init) st"
  have "length (map fst (out (snd ?r))) \<le> taken (snd ?r) - 1"
    using run_synced_page [of u N bq st] by (simp add: synced_page_def)
  moreover have "taken (snd ?r) \<le> pulls st"
    using run_taken_le_pulls [of u N bq "(comments_init, page_init)" st]
    by (simp add: page_init_def)
  ultimately show ?thesis by simp
qed

subsection \<open>The story of a comment\<close>

lemma id_fld_fix_post_text: "id_fld (fix_post_text bq p) = id_fld p"
  by (simp add: fix_post_text_def split: option.splits)

lemma id_fld_kids_callback: "id_fld (kids_callback bq p c) = id_fld c"
  by (simp add: kids_callback_def id_fld_fixComment)

lemma story_fixComment: "story (fixComment bq c) = story c"
  by (simp add: fixComment_def Let_def split: option.splits)

lemma story_of_kids_callback: "story (kids_callback bq p c) = id_fld p"
  by (simp add: kids_callback_def story_fixComment)

lemma fatitem_handler_keeps_id:
  "\<not> sets_id (Header e) \<Longrightarrow> id_at (fatitem_handler u N s e) post_ref = id_at s post_ref"
  by (cases e) (auto simp: id_at_def assign_def throw_def open_child_def Let_def)

lemma comments_handler_keeps_post_id:
  assumes "\<not> sets_id e" and "post_ref < fresh s"
  shows "id_at (comments_handler u N s e) post_ref = id_at s post_ref"
proof (cases e)
  case (Header x)
  then show ?thesis using assms fatitem_handler_keeps_id [of x u N s] by simp
next
  case (Scrape x)
  then show ?thesis using assms by (simp add: scrapeComments_keeps_id)
qed (auto simp: id_at_def dispatchEvent_def)

lemma comments_handler_story_inv:
  assumes "\<not> sets_id e" and "story_inv i (s, c)"
  shows "story_inv i (comments_handler u N s e, c)"
  using assms comments_handler_keeps_post_id [of e s u N] comments_handler_fresh_mono [of s u N e]
  by (auto simp: story_inv_def)

lemma pull_page_story_inv:
  assumes "story_inv i x"
  shows "story_inv i (pull_page bq x)"
proof (cases x)
  case (Pair s c)
  show ?thesis
  proof (cases "taken c < length (dispatched s)")
    case False
    then show ?thesis using assms Pair by (simp add: pull_page_def)
  next
    case True
    show ?thesis
    proof (cases "returned c")
      case None
      then show ?thesis
        using assms Pair True
        by (simp add: story_inv_def pull_page_def return_post_def assign_def id_at_def
              id_fld_fix_post_text)
    next
      case (Some h)
      then show ?thesis
        using assms Pair True
        by (auto simp: story_inv_def pull_page_def pull_def Let_def id_at_def
              id_fld_kids_callback story_of_kids_callback)
    qed
  qed
qed

lemma no_dispatch_consumer:
  assumes "dispatched (fst (run (comments_handler u N) (pull_page bq) sc st)) = []"
  shows "snd (run (comments_handler u N) (pull_page bq) sc st) = snd sc
     \<and> dispatched (fst sc) = []"
  using assms
proof (induction st arbitrary: sc)
  case Nil
  then show ?case by (simp add: run_Nil)
next
  case (Cons x xs)
  let ?a = "advance (comments_handler u N) (pull_page bq) sc x"
  have ih: "snd (run (comments_handler u N) (pull_page bq) ?a xs) = snd ?a
      \<and> dispatched (fst ?a) = []"
    using Cons.IH [of ?a] Cons.prems by (simp add: run_Cons)
  obtain s c where sc: "sc = (s, c)" by (cases sc)
  have "snd ?a = snd sc \<and> dispatched (fst sc) = []"
  proof (cases x)
    case (Handler e)
    then show ?thesis
      using ih sc comments_handler_ext [of u N s e] by (auto split: if_splits)
  next
    case Pull
    then have d: "dispatched s = []" using ih sc by (simp add: pull_page_frame)
    then show ?thesis using Pull sc by (simp add: pull_page_def)
  qed
  then show ?case using ih by (simp add: run_Cons)
qed

lemma kids_story_inv:
  assumes d: "dispatched (fst (run (comments_handler u N) (pull_page bq)
                                 (comments_init, page_init) st1)) = []"
    and q: "list_all (\<lambda>e. \<not> sets_id e) (events_of st2)"
  shows "\<exists>i. story_inv i (comments_pass u N bq (st1 @ st2))"
proof -
  let ?h = "comments_handler u N" and ?p = "pull_page bq"
  let ?r1 = "run ?h ?p (comments_init, page_init) st1"
  let ?r = "run ?h ?p (comments_init, page_init) (st1 @ st2)"
  let ?n = "length (dispatched (fst ?r)) - taken (snd ?r)"
  let ?i = "id_at (fst ?r1) post_ref"
  have c1: "snd ?r1 = page_init" using no_dispatch_consumer [OF d] by simp
  have i1: "story_inv ?i ?r1"
    using c1 comments_run_post_ref [of u N bq page_init st1]
    by (simp add: story_inv_def page_init_def)
  have eq: "comments_pass u N bq (st1 @ st2) = run ?h ?p ?r1 (st2 @ replicate ?n Pull)"
    by (simp add: comments_pass_def pass_as_run run_append)
  have ev: "list_all (\<lambda>e. \<not> sets_id e) (events_of (st2 @ replicate ?n Pull))"
    using q by (simp add: events_of_append events_of_replicate_Pull)
  have "story_inv ?i (run ?h ?p ?r1 (st2 @ replicate ?n Pull))"
  proof (rule run_invariant_on [where Q = "\<lambda>e. \<not> sets_id e" and P = "story_inv ?i", OF ev])
    show "story_inv ?i ?r1" by (rule i1)
  qed (simp_all add: comments_handler_story_inv pull_page_story_inv)
  then show ?thesis using eq by auto
qed






subsection \<open>The continuation\<close>

lemmas stories_eval = stories_def storiesGenerator_def stories_pass_def pass_def drain_def run_def
  pull_def stories_init_def consumer_init_def alloc_def assign_def dispatchEvent_def throw_def
  resolve_def consume_def transformed_def stories_body_def empty_item_def append_str_def
  Number_digits_def is_digit_def Let_def continuation_def

lemmas threads_eval = threadsGenerator_def threads_pass_def pass_def drain_def run_def
  pull_def scrape_init_def consumer_init_def alloc_def assign_def dispatchEvent_def throw_def
  resolve_def consume_def transformed_def fixComment_def empty_item_def append_str_def
  Number_digits_def is_digit_def Let_def continuation_def open_child_def elToTagOpen_def
  trim_def trimStart_def is_ws_def

lemmas comments_eval = commentsGenerator_def comments_pass_def pass_def drain_def run_def
  pull_def pull_page_def return_post_def page_init_def comments_init_def post_ref_def
  fix_post_text_def kids_callback_def alloc_def assign_def dispatchEvent_def throw_def
  resolve_def consume_def transformed_def fixComment_def empty_item_def append_str_def
  Number_digits_def is_digit_def Let_def continuation_def open_child_def elToTagOpen_def
  trim_def trimStart_def is_ws_def

lemma settle_first_resolved:
  "(case first_resolved u None hs of Some v \<Rightarrow> Fulfilled v | None \<Rightarrow> Fulfilled [])
     = Fulfilled (continuation u hs)"
  by (simp add: first_resolved_def continuation_def split: list.splits)

lemma storiesGenerator_completed:
  assumes "\<not> thrown (fst (stories_pass u N steps))"
  shows "storiesGenerator u N (steps, Completed)
     = Done (map Rec (out (snd (stories_pass u N steps)))
             @ [More (continuation u (morelink_hrefs (events_of steps)))])"
proof -
  obtain s c where p: "stories_pass u N steps = (s, c)" by (cases "stories_pass u N steps")
  have "resolve (moreLink s) [] = Some (continuation u (morelink_hrefs (events_of steps)))"
    using stories_pass_moreLink [OF assms] p by (simp add: resolve_first_resolved)
  then show ?thesis
    using assms p by (simp add: storiesGenerator_def transformed_def consume_def)
qed

lemma threadsGenerator_completed:
  assumes "\<not> thrown (fst (threads_pass u N bq steps))"
  shows "threadsGenerator u N bq (steps, Completed)
     = Done (map Rec (out (snd (threads_pass u N bq steps)))
             @ [More (continuation u (next_hrefs (events_of steps)))])"
proof -
  obtain s c where p: "threads_pass u N bq steps = (s, c)" by (cases "threads_pass u N bq steps")
  have "resolve (moreLink s) [] = Some (continuation u (next_hrefs (events_of steps)))"
    using threads_pass_moreLink [OF assms] p by (simp add: resolve_first_resolved)
  then show ?thesis
    using assms p by (simp add: threadsGenerator_def transformed_def consume_def)
qed

lemma commentsGenerator_completed:
  assumes "\<not> thrown (fst (comments_pass u N bq steps))"
  shows "\<exists>t. commentsGenerator u N bq (steps, Completed) = Fulfilled t
     \<and> moreLink_promise t = Fulfilled (continuation u (next_hrefs (events_of steps)))
     \<and> kids t = Done (out (snd (comments_pass u N bq steps)))"
proof -
  obtain s c where p: "comments_pass u N bq steps = (s, c)" by (cases "comments_pass u N bq steps")
  have m: "moreLink s = first_resolved u None (next_hrefs (events_of steps))"
    using comments_pass_moreLink [OF assms] p by simp
  have o: "returned c = None \<Longrightarrow> out c = []"
    using comments_out_refs [of u N bq steps] p by auto
  show ?thesis
  proof (cases "returned c")
    case None
    then show ?thesis
      using assms p m o
      by (simp add: commentsGenerator_def transformed_def consume_def settle_first_resolved)
  next
    case (Some h)
    have "(case first_resolved u None (next_hrefs (events_of steps)) of
             Some v \<Rightarrow> Fulfilled v | None \<Rightarrow> Fulfilled [])
        = Fulfilled (continuation u (next_hrefs (events_of steps)))"
      by (rule settle_first_resolved)
    then show ?thesis
      using assms p m Some
      by (simp add: commentsGenerator_def transformed_def consume_def)
  qed
qed

lemma storiesGenerator_failed:
  assumes "transformed (fst (stories_pass u N steps)) e = Errored"
  shows "storiesGenerator u N (steps, e) = Hang (map Rec (out (snd (stories_pass u N steps))))"
  using assms by (cases "stories_pass u N steps") (simp add: storiesGenerator_def consume_def)

lemma threadsGenerator_failed:
  assumes "transformed (fst (threads_pass u N bq steps)) e = Errored"
  shows "threadsGenerator u N bq (steps, e)
     = Hang (map Rec (out (snd (threads_pass u N bq steps))))"
  using assms by (cases "threads_pass u N bq steps") (simp add: threadsGenerator_def consume_def)

text \<open>
  C1 as stated fails: a pass can end without any continuation. When the stream of the
  response fails after the next-page anchor has matched, the listings generator yields
  nothing more and never ends; so does the threads generator when a handler throws, here
  on a \<^verbatim>\<open><br>\<close> in a comment body.
\<close>

theorem continuation_never_produced_counterexample:
  "storiesGenerator id Number_digits ([Handler (MoreLink ''news?p=2'')], Errored) = Hang []
   \<and> threadsGenerator id Number_digits id
       ([Handler (MoreLinkNext ''threads?next=2''), Handler (Scrape (Comtr ''5'')),
         Handler (Scrape (CommtextChild ''br'' [] True))], Completed) = Hang []"
  by (simp add: stories_eval threads_eval)

text \<open>
  C1, amended. For every pass whose stream completes and in which no handler throws, and
  for every moment at which the consumer pulls: the listings generator and the threads
  generator yield their records and then exactly one continuation, as the final value,
  and end; on a thread page the promise of the continuation is fulfilled. The
  continuation is the unescaped reference of the first next-page anchor of the pass, and
  the empty string when there is none. When the stream fails or a handler throws, the
  listings generator and the threads generator yield records only, no continuation, and
  never end.
\<close>

theorem continuation_exactly_once:
  "(\<not> thrown (fst (stories_pass unescape toNumber steps)) \<longrightarrow>
      (\<exists>rs. storiesGenerator unescape toNumber (steps, Completed)
         = Done (map Rec rs @ [More (continuation unescape (morelink_hrefs (events_of steps)))])))
   \<and> (\<not> thrown (fst (threads_pass unescape toNumber blockquotify tsteps)) \<longrightarrow>
      (\<exists>rs. threadsGenerator unescape toNumber blockquotify (tsteps, Completed)
         = Done (map Rec rs @ [More (continuation unescape (next_hrefs (events_of tsteps)))])))
   \<and> (\<not> thrown (fst (comments_pass unescape toNumber blockquotify tsteps)) \<longrightarrow>
      (\<exists>t rs. commentsGenerator unescape toNumber blockquotify (tsteps, Completed) = Fulfilled t
         \<and> kids t = Done rs
         \<and> moreLink_promise t
             = Fulfilled (continuation unescape (next_hrefs (events_of tsteps)))))
   \<and> (transformed (fst (stories_pass unescape toNumber steps)) e = Errored \<longrightarrow>
      (\<exists>rs. storiesGenerator unescape toNumber (steps, e) = Hang (map Rec rs)))
   \<and> (transformed (fst (threads_pass unescape toNumber blockquotify tsteps)) e = Errored \<longrightarrow>
      (\<exists>rs. threadsGenerator unescape toNumber blockquotify (tsteps, e) = Hang (map Rec rs)))
   \<and> continuation unescape [] = []
   \<and> continuation unescape (h # hs) = unescape h"
proof (intro conjI impI)
  assume "transformed (fst (stories_pass unescape toNumber steps)) e = Errored"
  then show "\<exists>rs. storiesGenerator unescape toNumber (steps, e) = Hang (map Rec rs)"
    using storiesGenerator_failed by blast
next
  assume "transformed (fst (threads_pass unescape toNumber blockquotify tsteps)) e = Errored"
  then show "\<exists>rs. threadsGenerator unescape toNumber blockquotify (tsteps, e) = Hang (map Rec rs)"
    using threadsGenerator_failed by blast
next
  assume "\<not> thrown (fst (stories_pass unescape toNumber steps))"
  then show "\<exists>rs. storiesGenerator unescape toNumber (steps, Completed)
         = Done (map Rec rs @ [More (continuation unescape (morelink_hrefs (events_of steps)))])"
    using storiesGenerator_completed by blast
next
  assume "\<not> thrown (fst (threads_pass unescape toNumber blockquotify tsteps))"
  then show "\<exists>rs. threadsGenerator unescape toNumber blockquotify (tsteps, Completed)
         = Done (map Rec rs @ [More (continuation unescape (next_hrefs (events_of tsteps)))])"
    using threadsGenerator_completed by blast
next
  assume "\<not> thrown (fst (comments_pass unescape toNumber blockquotify tsteps))"
  then show "\<exists>t rs. commentsGenerator unescape toNumber blockquotify (tsteps, Completed) = Fulfilled t
         \<and> kids t = Done rs
         \<and> moreLink_promise t
             = Fulfilled (continuation unescape (next_hrefs (events_of tsteps)))"
    using commentsGenerator_completed [of unescape toNumber blockquotify tsteps] by blast
qed (simp_all add: continuation_def)

theorem continuation_exactly_once_witness:
  "\<not> thrown (fst (stories_pass id Number_digits
        [Handler (Athing ''1''), Pull, Handler (MoreLink ''news?p=2''), Handler YcLinks,
         Handler (MoreLink ''news?p=3'')]))
   \<and> (\<exists>rs. storiesGenerator id Number_digits
        ([Handler (Athing ''1''), Pull, Handler (MoreLink ''news?p=2''), Handler YcLinks,
          Handler (MoreLink ''news?p=3'')], Completed) = Done (map Rec rs @ [More ''news?p=2'']))
   \<and> \<not> thrown (fst (threads_pass id Number_digits id [Handler (Scrape (Comtr ''5''))]))
   \<and> (\<exists>rs. threadsGenerator id Number_digits id ([Handler (Scrape (Comtr ''5''))], Completed)
        = Done (map Rec rs @ [More []]))
   \<and> \<not> thrown (fst (comments_pass id Number_digits id [Handler (Scrape (Comtr ''5''))]))
   \<and> (\<exists>t rs. commentsGenerator id Number_digits id ([Handler (Scrape (Comtr ''5''))], Completed)
        = Fulfilled t \<and> kids t = Done rs \<and> moreLink_promise t = Fulfilled [])
   \<and> transformed (fst (stories_pass id Number_digits
        [Handler (Athing ''1''), Pull, Handler (MoreLink ''news?p=2''), Handler YcLinks,
         Handler (MoreLink ''news?p=3'')])) Errored = Errored
   \<and> (\<exists>rs. storiesGenerator id Number_digits
        ([Handler (Athing ''1''), Pull, Handler (MoreLink ''news?p=2''), Handler YcLinks,
          Handler (MoreLink ''news?p=3'')], Errored) = Hang (map Rec rs))
   \<and> transformed (fst (threads_pass id Number_digits id [Handler (Scrape (Comtr ''5''))]))
        Errored = Errored
   \<and> (\<exists>rs. threadsGenerator id Number_digits id ([Handler (Scrape (Comtr ''5''))], Errored)
        = Hang (map Rec rs))"
proof -
  have a: "\<not> thrown (fst (stories_pass id Number_digits
        [Handler (Athing ''1''), Pull, Handler (MoreLink ''news?p=2''), Handler YcLinks,
         Handler (MoreLink ''news?p=3'')]))"
    by (simp add: stories_eval)
  have b: "\<not> thrown (fst (threads_pass id Number_digits id [Handler (Scrape (Comtr ''5''))]))"
    by (simp add: threads_eval)
  have c: "\<not> thrown (fst (comments_pass id Number_digits id [Handler (Scrape (Comtr ''5''))]))"
    by (simp add: comments_eval)
  show ?thesis
    using a b c
      continuation_exactly_once [where unescape = id and toNumber = Number_digits
        and blockquotify = id and e = Completed
        and steps = "[Handler (Athing ''1''), Pull, Handler (MoreLink ''news?p=2''),
                      Handler YcLinks, Handler (MoreLink ''news?p=3'')]"
        and tsteps = "[Handler (Scrape (Comtr ''5''))]"]
      continuation_exactly_once [where unescape = id and toNumber = Number_digits
        and blockquotify = id and e = Errored
        and steps = "[Handler (Athing ''1''), Pull, Handler (MoreLink ''news?p=2''),
                      Handler YcLinks, Handler (MoreLink ''news?p=3'')]"
        and tsteps = "[Handler (Scrape (Comtr ''5''))]"]
    by (simp add: continuation_def transformed_def)
qed

subsection \<open>Pending records and failed passes\<close>

text \<open>
  C4 as stated fails. A page cut after the author of its only listing, whose stream
  completes: the generator yields the continuation alone, and the pending listing is
  never emitted.
\<close>

theorem pending_record_dropped_counterexample:
  "storiesGenerator id Number_digits
     ([Handler (Athing ''1''), Handler (HnuserText ''bob'')], Completed) = Done [More []]"
  by (simp add: stories_eval)

text \<open>
  C4, amended. A record is dispatched only by a later start-of-record element or by the
  terminal selector \<^verbatim>\<open>.yclinks\<close>. For every pass in which the terminal selector never
  fires, whose stream completes and in which no handler throws, the records yielded are
  those of all start-of-record elements but the last, in order, followed by the
  continuation: the record pending when the stream completes is dropped. This holds for
  the listings of a listings pass and for the comments of a threads pass.
\<close>

theorem records_sealed_by_markers_only:
  "(YcLinks \<notin> set (events_of steps) \<and> \<not> thrown (fst (stories_pass unescape toNumber steps)) \<longrightarrow>
      (\<exists>rs. storiesGenerator unescape toNumber (steps, Completed)
               = Done (map Rec rs @ [More (continuation unescape (morelink_hrefs (events_of steps)))])
           \<and> map (\<lambda>y. id_fld (snd y)) rs
               = butlast (map (\<lambda>a. Some (toNumber a)) (athing_ids (events_of steps)))))
   \<and> (Scrape CommentYcLinks \<notin> set (events_of tsteps)
        \<and> \<not> thrown (fst (threads_pass unescape toNumber blockquotify tsteps)) \<longrightarrow>
      (\<exists>rs. threadsGenerator unescape toNumber blockquotify (tsteps, Completed)
               = Done (map Rec rs @ [More (continuation unescape (next_hrefs (events_of tsteps)))])
           \<and> map (\<lambda>y. id_fld (snd y)) rs
               = butlast (map (\<lambda>a. Some (toNumber a)) (comtr_ids (events_of tsteps)))))"
proof (intro conjI impI)
  assume a: "YcLinks \<notin> set (events_of steps)
      \<and> \<not> thrown (fst (stories_pass unescape toNumber steps))"
  show "\<exists>rs. storiesGenerator unescape toNumber (steps, Completed)
               = Done (map Rec rs @ [More (continuation unescape (morelink_hrefs (events_of steps)))])
           \<and> map (\<lambda>y. id_fld (snd y)) rs
               = butlast (map (\<lambda>a. Some (toNumber a)) (athing_ids (events_of steps)))"
    using a storiesGenerator_completed [of unescape toNumber steps]
      stories_sealed_ids [of steps unescape toNumber]
    by blast
next
  assume a: "Scrape CommentYcLinks \<notin> set (events_of tsteps)
      \<and> \<not> thrown (fst (threads_pass unescape toNumber blockquotify tsteps))"
  show "\<exists>rs. threadsGenerator unescape toNumber blockquotify (tsteps, Completed)
               = Done (map Rec rs @ [More (continuation unescape (next_hrefs (events_of tsteps)))])
           \<and> map (\<lambda>y. id_fld (snd y)) rs
               = butlast (map (\<lambda>a. Some (toNumber a)) (comtr_ids (events_of tsteps)))"
    using a threadsGenerator_completed [of unescape toNumber blockquotify tsteps]
      threads_sealed_ids [of tsteps unescape toNumber blockquotify]
    by blast
qed

theorem records_sealed_by_markers_only_witness:
  "YcLinks \<notin> set (events_of [Handler (Athing ''1''), Handler (Athing ''2''), Pull,
                               Handler (HnuserText ''bob'')])
   \<and> \<not> thrown (fst (stories_pass id Number_digits
          [Handler (Athing ''1''), Handler (Athing ''2''), Pull, Handler (HnuserText ''bob'')]))
   \<and> (\<exists>rs. storiesGenerator id Number_digits
          ([Handler (Athing ''1''), Handler (Athing ''2''), Pull, Handler (HnuserText ''bob'')],
           Completed) = Done (map Rec rs @ [More []])
        \<and> map (\<lambda>y. id_fld (snd y)) rs = [Some (Num 1)])
   \<and> Scrape CommentYcLinks \<notin> set (events_of [Handler (Scrape (Comtr ''5'')),
          Handler (Scrape (CommtextText ''hi'')), Handler (Scrape (Comtr ''6''))])
   \<and> \<not> thrown (fst (threads_pass id Number_digits id
          [Handler (Scrape (Comtr ''5'')), Handler (Scrape (CommtextText ''hi'')),
           Handler (Scrape (Comtr ''6''))]))
   \<and> (\<exists>rs. threadsGenerator id Number_digits id
          ([Handler (Scrape (Comtr ''5'')), Handler (Scrape (CommtextText ''hi'')),
            Handler (Scrape (Comtr ''6''))], Completed) = Done (map Rec rs @ [More []])
        \<and> map (\<lambda>y. id_fld (snd y)) rs = [Some (Num 5)])"
proof -
  have a: "YcLinks \<notin> set (events_of [Handler (Athing ''1''), Handler (Athing ''2''), Pull,
                               Handler (HnuserText ''bob'')])"
    by simp
  have b: "\<not> thrown (fst (stories_pass id Number_digits
          [Handler (Athing ''1''), Handler (Athing ''2''), Pull, Handler (HnuserText ''bob'')]))"
    by (simp add: stories_eval)
  have c: "Scrape CommentYcLinks \<notin> set (events_of [Handler (Scrape (Comtr ''5'')),
          Handler (Scrape (CommtextText ''hi'')), Handler (Scrape (Comtr ''6''))])"
    by simp
  have d: "\<not> thrown (fst (threads_pass id Number_digits id
          [Handler (Scrape (Comtr ''5'')), Handler (Scrape (CommtextText ''hi'')),
           Handler (Scrape (Comtr ''6''))]))"
    by (simp add: threads_eval)
  show ?thesis
    using a b c d
      records_sealed_by_markers_only [where unescape = id and toNumber = Number_digits
        and blockquotify = id
        and steps = "[Handler (Athing ''1''), Handler (Athing ''2''), Pull,
                      Handler (HnuserText ''bob'')]"
        and tsteps = "[Handler (Scrape (Comtr ''5'')), Handler (Scrape (CommtextText ''hi'')),
                       Handler (Scrape (Comtr ''6''))]"]
    by (simp add: continuation_def Number_digits_def is_digit_def)
qed








lemmas all_eval = stories_def storiesGenerator_def stories_pass_def threadsGenerator_def
  threads_pass_def commentsGenerator_def comments_pass_def pass_def drain_def run_def
  pull_def pull_page_def return_post_def page_init_def comments_init_def post_ref_def
  stories_init_def scrape_init_def consumer_init_def
  fix_post_text_def kids_callback_def alloc_def assign_def dispatchEvent_def throw_def
  resolve_def consume_def transformed_def fixComment_def stories_body_def empty_item_def
  append_str_def Number_digits_def is_digit_def Let_def continuation_def open_child_def
  elToTagOpen_def trim_def trimStart_def is_ws_def


subsection \<open>Field values\<close>

text \<open>
  C6 as stated fails. The division is the division of JavaScript numbers, not an integer
  division: an indentation width of 20 gives the level one half, where the integer
  quotient is 0.
\<close>

theorem level_not_truncated_counterexample:
  "level (heap (fst (threads_pass id Number_digits id
       [Handler (Scrape (Comtr ''5'')), Handler (Scrape (IndImg ''20''))])) 0)
     = Some (Num (1 / 2))
   \<and> Num (1 / 2) \<noteq> Num (of_int (20 div 40))"
  by (simp add: all_eval div40_def)

text \<open>
  C6, amended. The level of a comment is the number read from the indentation width,
  divided by 40 as JavaScript numbers are, with no truncation and no rounding: a width
  that reads as the number \<open>q\<close> gives the level \<open>q / 40\<close>. For a width that is a multiple
  \<open>40 * k\<close> of the unit, \<open>k\<close> a natural number, the level is \<open>k\<close>.
\<close>

theorem level_is_width_over_unit:
  assumes "comment s = Some c"
  shows "level (heap (scrapeComments toNumber s (IndImg width)) c)
           = Some (div40 (toNumber width))
       \<and> (toNumber width = Num q \<longrightarrow>
            level (heap (scrapeComments toNumber s (IndImg width)) c) = Some (Num (q / 40)))
       \<and> (toNumber width = Num (of_nat (40 * k)) \<longrightarrow>
            level (heap (scrapeComments toNumber s (IndImg width)) c) = Some (Num (of_nat k)))"
  using assms by (simp add: assign_def div40_def)

theorem level_is_width_over_unit_witness:
  "comment (scrape_init\<lparr>comment := Some 0\<rparr>) = Some 0
   \<and> Number_digits ''80'' = Num (of_nat (40 * 2))
   \<and> level (heap (scrapeComments Number_digits (scrape_init\<lparr>comment := Some 0\<rparr>)
                     (IndImg ''80'')) 0) = Some (Num 2)
   \<and> Number_digits ''20'' = Num 20
   \<and> level (heap (scrapeComments Number_digits (scrape_init\<lparr>comment := Some 0\<rparr>)
                     (IndImg ''20'')) 0) = Some (Num (20 / 40))"
proof -
  have a: "comment (scrape_init\<lparr>comment := Some 0\<rparr>) = Some 0"
    by simp
  have b: "Number_digits ''80'' = Num (of_nat (40 * 2))"
    and c: "Number_digits ''20'' = Num 20"
    by (simp_all add: Number_digits_def is_digit_def)
  show ?thesis
    using a b c
      level_is_width_over_unit [where toNumber = Number_digits and width = "''80''"
        and k = 2 and q = 80, OF a]
      level_is_width_over_unit [where toNumber = Number_digits and width = "''20''"
        and k = 0 and q = 20, OF a]
    by (simp add: div40_def)
qed

text \<open>
  C3 fails on the code for the score (and, by the same handler body, for the comment
  count): each chunk that starts with a digit is parsed on its own and assigned. The text
  \<^verbatim>\<open>123 points\<close> gives the score 123 in one chunk, and the score 3 when it arrives as
  \<^verbatim>\<open>12\<close> and \<^verbatim>\<open>3 points\<close>; \<^verbatim>\<open>42 comments\<close> gives the count 42 in one chunk and 2 when
  it arrives as \<^verbatim>\<open>4\<close> and \<^verbatim>\<open>2 comments\<close>. The listing is yielded with these values.
  The source marks the handler with \<^verbatim>\<open>FIXME: concatenate text before parseInt\<close>.
\<close>

theorem score_chunks_overwrite:
  "map_option (\<lambda>p. score (heap (fst (stories_pass id Number_digits
       [Handler (Athing ''1''), Handler (ScoreText ''12''), Handler (ScoreText ''3 points'')])) p))
     (post (fst (stories_pass id Number_digits
       [Handler (Athing ''1''), Handler (ScoreText ''12''), Handler (ScoreText ''3 points'')])))
     = Some (Some (Num 3))
   \<and> map_option (\<lambda>p. score (heap (fst (stories_pass id Number_digits
       [Handler (Athing ''1''), Handler (ScoreText ''123 points'')])) p))
     (post (fst (stories_pass id Number_digits
       [Handler (Athing ''1''), Handler (ScoreText ''123 points'')])))
     = Some (Some (Num 123))
   \<and> map_option (\<lambda>p. descendants (heap (fst (stories_pass id Number_digits
       [Handler (Athing ''1''), Handler (ItemLinkText ''4''),
        Handler (ItemLinkText ''2 comments'')])) p))
     (post (fst (stories_pass id Number_digits
       [Handler (Athing ''1''), Handler (ItemLinkText ''4''),
        Handler (ItemLinkText ''2 comments'')])))
     = Some (Some (Num 2))
   \<and> map_option (\<lambda>p. descendants (heap (fst (stories_pass id Number_digits
       [Handler (Athing ''1''), Handler (ItemLinkText ''42 comments'')])) p))
     (post (fst (stories_pass id Number_digits
       [Handler (Athing ''1''), Handler (ItemLinkText ''42 comments'')])))
     = Some (Some (Num 42))
   \<and> map (\<lambda>y. score (snd y)) (out (snd (stories_pass id Number_digits
       [Handler (Athing ''1''), Handler (ScoreText ''12''), Handler (ScoreText ''3 points''),
        Handler YcLinks])))
     = [Some (Num 3)]
   \<and> map (\<lambda>y. score (snd y)) (out (snd (stories_pass id Number_digits
       [Handler (Athing ''1''), Handler (ScoreText ''123 points''), Handler YcLinks])))
     = [Some (Num 123)]
   \<and> map (\<lambda>y. descendants (snd y)) (out (snd (stories_pass id Number_digits
       [Handler (Athing ''1''), Handler (ItemLinkText ''4''), Handler (ItemLinkText ''2 comments''),
        Handler YcLinks])))
     = [Some (Num 2)]
   \<and> map (\<lambda>y. descendants (snd y)) (out (snd (stories_pass id Number_digits
       [Handler (Athing ''1''), Handler (ItemLinkText ''42 comments''), Handler YcLinks])))
     = [Some (Num 42)]"
  by (simp add: all_eval starts_with_digit_def parseInt10_def)

text \<open>The string fields are appended to: the title is the concatenation of its chunks.\<close>

lemma title_chunks_concatenated:
  assumes "post s = Some p" and "title (heap s p) = Some t" and "\<not> thrown s"
  shows "title (heap (fst (run (stories_handler u N) (pull b) (s, c)
                             (map (\<lambda>x. Handler (TitleLinkText x)) chunks))) p)
           = Some (t @ concat chunks)"
  using assms
proof (induction chunks arbitrary: s t)
  case Nil
  then show ?case by (simp add: run_Nil)
next
  case (Cons x xs)
  let ?s1 = "stories_handler u N s (TitleLinkText x)"
  have "post ?s1 = Some p" "title (heap ?s1 p) = Some (t @ x)" "\<not> thrown ?s1"
    using Cons.prems by (simp_all add: assign_def append_str_def)
  from Cons.IH [OF this] show ?case
    using Cons.prems(3) by (simp add: run_Cons)
qed

subsection \<open>Listings, headers and comment sequences\<close>

lemma stories_out_bodies:
  "list_all (\<lambda>y. \<exists>p. snd y = stories_body p) (out (snd (stories_pass u N steps)))"
proof -
  let ?h = "stories_handler u N" and ?p = "pull stories_body"
  let ?r = "run ?h ?p (stories_init, consumer_init) steps"
  let ?n = "length (dispatched (fst ?r)) - taken (snd ?r)"
  let ?P = "\<lambda>x :: stories_state \<times> consumer.
     list_all (\<lambda>y. \<exists>p. snd y = stories_body p) (out (snd x))"
  have eq: "stories_pass u N steps
      = run ?h ?p (stories_init, consumer_init) (steps @ replicate ?n Pull)"
    by (simp add: stories_pass_def pass_as_run)
  have "?P (run ?h ?p (stories_init, consumer_init) (steps @ replicate ?n Pull))"
  proof (rule run_invariant [where P = ?P])
    fix x :: "stories_state \<times> consumer"
    assume "?P x"
    then show "?P (pull stories_body x)"
      by (cases x) (auto simp: pull_def Let_def)
  qed (simp_all add: consumer_init_def)
  then show ?thesis using eq by simp
qed

lemma yielded_records_stories:
  assumes "Rec r \<in> set (yields (storiesGenerator u N response))"
  shows "\<exists>p. snd r = stories_body p"
proof -
  obtain s c where p: "stories_pass u N (fst response) = (s, c)"
    by (cases "stories_pass u N (fst response)")
  have "r \<in> set (out c)"
    using assms p
    by (auto simp: storiesGenerator_def split: if_splits option.splits)
  then show ?thesis
    using stories_out_bodies [of u N "fst response"] p by (auto simp: list_all_iff)
qed

text \<open>
  C8. The body of the consumer loop turns a record without an author into a job, and
  leaves a record with an author the kind it has (a story when it has none); the author
  is not touched. Every record a listings pass yields comes out of this body, applied to
  the record as it is when the loop is handed it: when its author is empty it is a job.
\<close>

theorem job_when_no_author:
  "(by_fld p = None \<or> by_fld p = Some [] \<longrightarrow> type_fld (stories_body p) = Some ''job'')
   \<and> (by_fld p \<noteq> None \<and> by_fld p \<noteq> Some [] \<longrightarrow>
        type_fld (stories_body p)
          = (if type_fld p = None \<or> type_fld p = Some [] then Some ''story'' else type_fld p))
   \<and> by_fld (stories_body p) = by_fld p
   \<and> (Rec r \<in> set (yields (storiesGenerator unescape toNumber response)) \<longrightarrow>
        (\<exists>p0. snd r = stories_body p0)
        \<and> (by_fld (snd r) = None \<or> by_fld (snd r) = Some [] \<longrightarrow>
             type_fld (snd r) = Some ''job''))"
proof (intro conjI)
  show "by_fld p = None \<or> by_fld p = Some [] \<longrightarrow> type_fld (stories_body p) = Some ''job''"
    by (auto simp: stories_body_def Let_def split: option.splits)
  show "by_fld p \<noteq> None \<and> by_fld p \<noteq> Some [] \<longrightarrow>
        type_fld (stories_body p)
          = (if type_fld p = None \<or> type_fld p = Some [] then Some ''story'' else type_fld p)"
    by (auto simp: stories_body_def Let_def split: option.splits)
  show "by_fld (stories_body p) = by_fld p"
    by (simp add: stories_body_def Let_def)
  show "Rec r \<in> set (yields (storiesGenerator unescape toNumber response)) \<longrightarrow>
        (\<exists>p0. snd r = stories_body p0)
        \<and> (by_fld (snd r) = None \<or> by_fld (snd r) = Some [] \<longrightarrow>
             type_fld (snd r) = Some ''job'')"
  proof
    assume "Rec r \<in> set (yields (storiesGenerator unescape toNumber response))"
    then obtain p0 where r: "snd r = stories_body p0"
      using yielded_records_stories by blast
    have "by_fld (snd r) = None \<or> by_fld (snd r) = Some [] \<longrightarrow>
             type_fld (snd r) = Some ''job''"
      unfolding r by (auto simp: stories_body_def Let_def split: option.splits)
    then show "(\<exists>p0. snd r = stories_body p0)
        \<and> (by_fld (snd r) = None \<or> by_fld (snd r) = Some [] \<longrightarrow>
             type_fld (snd r) = Some ''job'')"
      using r by blast
  qed
qed

theorem job_when_no_author_witness:
  "by_fld (empty_item\<lparr>by_fld := Some []\<rparr>) = Some []
   \<and> type_fld (stories_body (empty_item\<lparr>by_fld := Some []\<rparr>)) = Some ''job''
   \<and> by_fld (empty_item\<lparr>by_fld := Some ''bob'', type_fld := Some ''poll''\<rparr>) = Some ''bob''
   \<and> type_fld (stories_body (empty_item\<lparr>by_fld := Some ''bob'', type_fld := Some ''poll''\<rparr>))
       = Some ''poll''
   \<and> Rec (0, empty_item\<lparr>id_fld := Some (Num 1), type_fld := Some ''job'', title := Some [],
          score := Some (Num 0), by_fld := Some [], timeAgo := Some [],
          descendants := Some (Num 0)\<rparr>)
       \<in> set (yields (storiesGenerator id Number_digits
                 ([Handler (Athing ''1''), Handler YcLinks], Completed)))"
proof -
  have a: "by_fld (empty_item\<lparr>by_fld := Some []\<rparr>) = Some []"
    and b: "by_fld (empty_item\<lparr>by_fld := Some ''bob'', type_fld := Some ''poll''\<rparr>) = Some ''bob''"
    and c: "type_fld (empty_item\<lparr>by_fld := Some ''bob'', type_fld := Some ''poll''\<rparr>) = Some ''poll''"
    by (simp_all add: empty_item_def)
  have d: "Rec (0, empty_item\<lparr>id_fld := Some (Num 1), type_fld := Some ''job'', title := Some [],
          score := Some (Num 0), by_fld := Some [], timeAgo := Some [],
          descendants := Some (Num 0)\<rparr>)
       \<in> set (yields (storiesGenerator id Number_digits
                 ([Handler (Athing ''1''), Handler YcLinks], Completed)))"
    by (simp add: stories_eval)
  show ?thesis
    using a b c d
      job_when_no_author [where p = "empty_item\<lparr>by_fld := Some []\<rparr>"
        and r = "(0, empty_item\<lparr>id_fld := Some (Num 1), type_fld := Some ''job'',
          title := Some [], score := Some (Num 0), by_fld := Some [], timeAgo := Some [],
          descendants := Some (Num 0)\<rparr>)"
        and unescape = id and toNumber = Number_digits
        and response = "([Handler (Athing ''1''), Handler YcLinks], Completed)"]
      job_when_no_author [where p = "empty_item\<lparr>by_fld := Some ''bob'', type_fld := Some ''poll''\<rparr>"
        and r = "(0, empty_item)" and unescape = id and toNumber = Number_digits
        and response = "([], Completed)"]
    by simp
qed

lemma commentsGenerator_tree:
  assumes b: "list_all before_tree (events_of st1)"
    and n: "CommentTree \<notin> set (events_of st2)"
  shows "\<exists>t cs. commentsGenerator u N bq (st1 @ Handler CommentTree # st2, e) = Fulfilled t
     \<and> dispatched (fst (comments_pass u N bq (st1 @ Handler CommentTree # st2))) = post_ref # cs
     \<and> post_ref \<notin> set cs
     \<and> fst (header t) = post_ref
     \<and> map fst (yields (kids t)) = cs"
proof -
  let ?steps = "st1 @ Handler CommentTree # st2"
  obtain s c where p: "comments_pass u N bq ?steps = (s, c)"
    by (cases "comments_pass u N bq ?steps")
  obtain cs where d: "dispatched s = post_ref # cs" and m: "post_ref \<notin> set cs"
    using comments_tree_dispatched [OF b n, where u = u and N = N and bq = bq] p by auto
  have o: "map fst (out c) = cs" and r: "returned c \<noteq> None"
    using comments_out_refs [of u N bq ?steps] p d by simp_all
  then obtain h where h: "returned c = Some h" by auto
  show ?thesis
    using p d m o h by (simp add: commentsGenerator_def)
qed

lemma header_after_dispatch:
  "returned (snd (run (comments_handler u N) (pull_page bq) (comments_init, page_init) st)) \<noteq> None
     \<Longrightarrow> dispatched (fst (run (comments_handler u N) (pull_page bq)
                              (comments_init, page_init) st)) \<noteq> []"
  using run_synced_page [of u N bq st] by (auto simp: synced_page_def)

text \<open>
  C9 as stated fails: the handler of \<^verbatim>\<open>.comment-tree\<close> dispatches the header on every
  match, without a guard. On a page with two such elements the header is returned, and
  the comment sequence then yields the same object again, as a flagged comment whose
  story is itself.
\<close>

theorem header_dispatched_twice_counterexample:
  "\<exists>t. commentsGenerator id Number_digits id
          ([Handler (Header (FatAthing ''7'')), Handler CommentTree, Handler CommentTree],
           Completed) = Fulfilled t
       \<and> map fst (yields (kids t)) = [fst (header t)]
       \<and> map (\<lambda>k. id_fld (snd k)) (yields (kids t)) = [Some (Num 7)]
       \<and> map (\<lambda>k. story (snd k)) (yields (kids t)) = [Some (Num 7)]
       \<and> map (\<lambda>k. deleted (snd k)) (yields (kids t)) = [Some True]"
  by (simp add: all_eval)

text \<open>
  C9, amended. For every thread page on which the \<^verbatim>\<open>.comment-tree\<close> element matches
  exactly once, after elements of the focused item and next-page anchors only, none of
  which makes a handler throw: the header is dispatched first and exactly once, the page
  is returned with it, whatever the end of the pass, and the comment sequence yields
  exactly the records dispatched after the header on the same event target during the
  same pass, in order, none of them the header. The sequence is lazy: the header is
  returned only once it has been dispatched, and after any part of a pass the consumer has
  been handed at most one comment for each of its pulls but the first, which returned the
  header.
\<close>

theorem header_first_and_once:
  "(list_all before_tree (events_of st1) \<and> CommentTree \<notin> set (events_of st2) \<longrightarrow>
      (\<exists>t cs. commentsGenerator unescape toNumber blockquotify
                 (st1 @ Handler CommentTree # st2, e) = Fulfilled t
         \<and> dispatched (fst (comments_pass unescape toNumber blockquotify
                              (st1 @ Handler CommentTree # st2))) = post_ref # cs
         \<and> post_ref \<notin> set cs
         \<and> fst (header t) = post_ref
         \<and> map fst (yields (kids t)) = cs))
   \<and> length (out (snd (run (comments_handler unescape toNumber) (pull_page blockquotify)
                         (comments_init, page_init) st))) \<le> pulls st - 1
   \<and> (returned (snd (run (comments_handler unescape toNumber) (pull_page blockquotify)
                        (comments_init, page_init) st)) \<noteq> None \<longrightarrow>
        dispatched (fst (run (comments_handler unescape toNumber) (pull_page blockquotify)
                           (comments_init, page_init) st)) \<noteq> [])"
  apply (intro conjI impI)
    apply (erule conjE)
    apply (erule (1) commentsGenerator_tree)
   apply (rule kids_lazy)
  apply (erule header_after_dispatch)
  done

theorem header_first_and_once_witness:
  "list_all before_tree (events_of [Handler (Header (FatAthing ''7'')), Pull])
   \<and> CommentTree \<notin> set (events_of [Handler (Scrape (Comtr ''8'')), Pull, Pull,
                                     Handler (Scrape (Comtr ''9'')), Handler (Scrape CommentYcLinks)])
   \<and> (\<exists>t. commentsGenerator id Number_digits id
          ([Handler (Header (FatAthing ''7'')), Pull] @ Handler CommentTree
             # [Handler (Scrape (Comtr ''8'')), Pull, Pull,
                Handler (Scrape (Comtr ''9'')), Handler (Scrape CommentYcLinks)], Completed)
          = Fulfilled t
        \<and> fst (header t) = 0
        \<and> map fst (yields (kids t)) = [1, 2])
   \<and> length (out (snd (run (comments_handler id Number_digits) (pull_page id)
        (comments_init, page_init)
        [Handler CommentTree, Handler (Scrape (Comtr ''8'')), Handler (Scrape (Comtr ''9'')),
         Pull]))) = 0
   \<and> returned (snd (run (comments_handler id Number_digits) (pull_page id)
        (comments_init, page_init)
        [Handler CommentTree, Handler (Scrape (Comtr ''8'')), Handler (Scrape (Comtr ''9'')),
         Pull])) \<noteq> None"
proof -
  have a: "list_all before_tree (events_of [Handler (Header (FatAthing ''7'')), Pull])"
    by simp
  have b: "CommentTree \<notin> set (events_of [Handler (Scrape (Comtr ''8'')), Pull, Pull,
                                     Handler (Scrape (Comtr ''9'')), Handler (Scrape CommentYcLinks)])"
    by simp
  have c: "returned (snd (run (comments_handler id Number_digits) (pull_page id)
        (comments_init, page_init)
        [Handler CommentTree, Handler (Scrape (Comtr ''8'')), Handler (Scrape (Comtr ''9'')),
         Pull])) \<noteq> None"
    by (simp add: all_eval)
  show ?thesis
    using a b c
      header_first_and_once [where unescape = id and toNumber = Number_digits
        and blockquotify = id and e = Completed
        and ?st1.0 = "[Handler (Header (FatAthing ''7'')), Pull]"
        and ?st2.0 = "[Handler (Scrape (Comtr ''8'')), Pull, Pull,
                       Handler (Scrape (Comtr ''9'')), Handler (Scrape CommentYcLinks)]"
        and st = "[Handler CommentTree, Handler (Scrape (Comtr ''8'')),
                   Handler (Scrape (Comtr ''9'')), Pull]"]
    by (simp add: all_eval pulls_def)
qed

lemma kids_story_header:
  assumes d: "dispatched (fst (run (comments_handler u N) (pull_page bq)
                                 (comments_init, page_init) st1)) = []"
    and q: "list_all (\<lambda>e. \<not> sets_id e) (events_of st2)"
    and g: "commentsGenerator u N bq (st1 @ st2, e) = Fulfilled t"
  shows "list_all (\<lambda>k. story (snd k) = id_fld (snd (header t))) (yields (kids t))"
proof -
  obtain s c where p: "comments_pass u N bq (st1 @ st2) = (s, c)"
    by (cases "comments_pass u N bq (st1 @ st2)")
  obtain i where i: "story_inv i (s, c)"
    using kids_story_inv [OF d q] p by auto
  show ?thesis
  proof (cases "returned c")
    case None
    then show ?thesis
      using g p by (auto simp: commentsGenerator_def split: if_splits)
  next
    case (Some h)
    then show ?thesis
      using g p i by (auto simp: commentsGenerator_def story_inv_def split: if_splits)
  qed
qed

lemma pull_page_kid:
  assumes "returned c = Some h" and "taken c < length (dispatched s)"
  shows "out (snd (pull_page bq (s, c)))
     = out c @ [(dispatched s ! taken c,
                 kids_callback bq (heap s post_ref) (heap s (dispatched s ! taken c)))]"
  using assms by (simp add: pull_page_def pull_def Let_def)

text \<open>
  C10. The callback of the comment sequence overwrites the story of a comment with the
  identifier the header has at that moment, whatever story reference the markup of the
  comment gave: each pull of the sequence yields the next record dispatched, with the
  identifier of the header as its story. When no \<^verbatim>\<open>.fatitem .athing[id]\<close> element follows
  the first dispatch of a pass, every comment of the sequence carries the identifier of the
  header the page is returned with.
\<close>

theorem kids_story_is_header_id:
  "story (kids_callback blockquotify p c) = id_fld p
   \<and> (returned pc = Some h \<and> taken pc < length (dispatched s) \<longrightarrow>
        out (snd (pull_page blockquotify (s, pc)))
          = out pc @ [(dispatched s ! taken pc,
                       kids_callback blockquotify (heap s post_ref)
                         (heap s (dispatched s ! taken pc)))]
        \<and> story (snd (last (out (snd (pull_page blockquotify (s, pc))))))
            = id_fld (heap s post_ref))
   \<and> (dispatched (fst (run (comments_handler unescape toNumber) (pull_page blockquotify)
                         (comments_init, page_init) st1)) = []
        \<and> list_all (\<lambda>e. \<not> sets_id e) (events_of st2)
        \<and> commentsGenerator unescape toNumber blockquotify (st1 @ st2, e) = Fulfilled t \<longrightarrow>
        list_all (\<lambda>k. story (snd k) = id_fld (snd (header t))) (yields (kids t)))"
proof (intro conjI impI)
  show "story (kids_callback blockquotify p c) = id_fld p"
    by (rule story_of_kids_callback)
next
  assume a: "returned pc = Some h \<and> taken pc < length (dispatched s)"
  then show "out (snd (pull_page blockquotify (s, pc)))
          = out pc @ [(dispatched s ! taken pc,
                       kids_callback blockquotify (heap s post_ref)
                         (heap s (dispatched s ! taken pc)))]"
    using pull_page_kid by blast
  then show "story (snd (last (out (snd (pull_page blockquotify (s, pc))))))
            = id_fld (heap s post_ref)"
    by (simp add: story_of_kids_callback)
next
  assume "dispatched (fst (run (comments_handler unescape toNumber) (pull_page blockquotify)
                         (comments_init, page_init) st1)) = []
        \<and> list_all (\<lambda>e. \<not> sets_id e) (events_of st2)
        \<and> commentsGenerator unescape toNumber blockquotify (st1 @ st2, e) = Fulfilled t"
  then show "list_all (\<lambda>k. story (snd k) = id_fld (snd (header t))) (yields (kids t))"
    using kids_story_header by blast
qed

theorem kids_story_is_header_id_witness:
  "dispatched (fst (run (comments_handler id Number_digits) (pull_page id)
                      (comments_init, page_init) [Handler (Header (FatAthing ''7'')), Pull])) = []
   \<and> list_all (\<lambda>e. \<not> sets_id e) (events_of
        [Handler CommentTree, Handler (Scrape (Comtr ''8'')),
         Handler (Scrape (StoryonLink ''item?id=99'')), Handler (Scrape CommentYcLinks)])
   \<and> (\<exists>t. commentsGenerator id Number_digits id
          ([Handler (Header (FatAthing ''7'')), Pull]
             @ [Handler CommentTree, Handler (Scrape (Comtr ''8'')),
                Handler (Scrape (StoryonLink ''item?id=99'')), Handler (Scrape CommentYcLinks)],
           Completed) = Fulfilled t
        \<and> id_fld (snd (header t)) = Some (Num 7)
        \<and> map (\<lambda>k. id_fld (snd k)) (yields (kids t)) = [Some (Num 8)]
        \<and> list_all (\<lambda>k. story (snd k) = id_fld (snd (header t))) (yields (kids t)))"
proof -
  let ?st1 = "[Handler (Header (FatAthing ''7'')), Pull]"
  let ?st2 = "[Handler CommentTree, Handler (Scrape (Comtr ''8'')),
         Handler (Scrape (StoryonLink ''item?id=99'')), Handler (Scrape CommentYcLinks)]"
  have a: "dispatched (fst (run (comments_handler id Number_digits) (pull_page id)
                      (comments_init, page_init) ?st1)) = []"
    by (simp add: all_eval)
  have b: "list_all (\<lambda>e. \<not> sets_id e) (events_of ?st2)"
    by simp
  obtain t where t: "commentsGenerator id Number_digits id (?st1 @ ?st2, Completed) = Fulfilled t"
    and i: "id_fld (snd (header t)) = Some (Num 7)"
    and k: "map (\<lambda>k. id_fld (snd k)) (yields (kids t)) = [Some (Num 8)]"
    by (simp add: all_eval)
  have s: "list_all (\<lambda>k. story (snd k) = id_fld (snd (header t))) (yields (kids t))"
    using a b t
      kids_story_is_header_id [where unescape = id and toNumber = Number_digits
        and blockquotify = id and e = Completed and ?st1.0 = ?st1 and ?st2.0 = ?st2 and t = t]
    by simp
  show ?thesis
    apply (intro conjI)
      apply (rule a)
     apply (rule b)
    apply (rule exI [of _ t])
    apply (intro conjI)
       apply (rule t)
      apply (rule i)
     apply (rule k)
    apply (rule s)
    done
qed

end
